theory Spec2Isabelle
  imports Complex_Main "HOL-Library.Sublist"
begin

section \<open>Data model of the evaluator (ao/src/eval/evaluator.cpp)\<close>

subsection \<open>Floats and intervals\<close>

text \<open>
  A C++ \<^verbatim>\<open>float\<close> is a finite number, an infinity or NaN. Only the comparisons of the
  source are fixed here; they follow IEEE 754: every ordered comparison with NaN is false,
  \<^verbatim>\<open>!=\<close> with NaN is true. The two signed zeros compare equal and are one value here.
  Arithmetic is not fixed: the kernels take it from the numeric library (see
  \<open>float_ops\<close> below).
\<close>

datatype flt = Fin real | PInf | NInf | NaN

fun flt_lt :: "flt \<Rightarrow> flt \<Rightarrow> bool" where
  "flt_lt (Fin x) (Fin y) = (x < y)"
| "flt_lt (Fin x) PInf = True"
| "flt_lt NInf (Fin y) = True"
| "flt_lt NInf PInf = True"
| "flt_lt _ _ = False"

definition flt_gt :: "flt \<Rightarrow> flt \<Rightarrow> bool" where
  "flt_gt x y = flt_lt y x"

definition flt_eq :: "flt \<Rightarrow> flt \<Rightarrow> bool" where
  "flt_eq x y = (x = y \<and> x \<noteq> NaN)"

definition flt_ne :: "flt \<Rightarrow> flt \<Rightarrow> bool" where
  "flt_ne x y = (\<not> flt_eq x y)"

definition flt_le :: "flt \<Rightarrow> flt \<Rightarrow> bool" where
  "flt_le x y = (flt_lt x y \<or> flt_eq x y)"

definition flt_ge :: "flt \<Rightarrow> flt \<Rightarrow> bool" where
  "flt_ge x y = flt_le y x"

text \<open>
  \<^verbatim>\<open>Interval::I\<close> is a boost interval: a pair of bounds. Its two-argument constructor
  (\<open>mk_interval\<close>) stores the bounds when \<open>lower \<le> upper\<close> and the empty interval
  (NaN, NaN) otherwise; \<open>interval_ok\<close> is the invariant this gives every stored interval.
\<close>

datatype interval = Interval (lower: flt) (upper: flt)

definition mk_interval :: "flt \<Rightarrow> flt \<Rightarrow> interval" where
  "mk_interval l u =
     (if l = NaN \<or> u = NaN \<or> \<not> flt_le l u then Interval NaN NaN else Interval l u)"

definition interval_ok :: "interval \<Rightarrow> bool" where
  "interval_ok iv = (flt_le (lower iv) (upper iv) \<or> (lower iv = NaN \<and> upper iv = NaN))"

subsection \<open>Opcodes, clauses, tapes\<close>

text \<open>
  The opcodes the kernels switch over. \<^verbatim>\<open>Opcode::MAX\<close> is written \<open>OP_MAX\<close> and so on
  (\<open>MAX\<close> and \<open>MIN\<close> are binders of HOL).
\<close>

datatype opcode =
    OP_INVALID | OP_CONST | OP_VAR_X | OP_VAR_Y | OP_VAR_Z | OP_VAR | OP_CONST_VAR
  | OP_SQUARE | OP_SQRT | OP_NEG | OP_SIN | OP_COS | OP_TAN | OP_ASIN | OP_ACOS | OP_ATAN
  | OP_EXP
  | OP_ADD | OP_MUL | OP_MIN | OP_MAX | OP_SUB | OP_DIV | OP_ATAN2 | OP_POW | OP_NTH_ROOT
  | OP_MOD | OP_NANFILL
  | OP_LAST_OP

text \<open>A clause \<^verbatim>\<open>{op, id, a, b}\<close>; the fields carry the struct's name as a prefix.\<close>

record Clause =
  clause_op :: opcode
  clause_id :: nat
  clause_a :: nat
  clause_b :: nat

datatype tape_type = ORIGINAL | INTERVAL | SPECIALIZED | FEATURE

text \<open>
  \<^verbatim>\<open>struct Tape\<close>: the clause vector \<^verbatim>\<open>t\<close>, the root slot \<^verbatim>\<open>i\<close>, the type tag and
  the box \<^verbatim>\<open>X, Y, Z\<close> of an interval push.
\<close>

record Tape =
  tape_t :: "Clause list"
  tape_i :: nat
  tape_type :: tape_type
  tape_X :: interval
  tape_Y :: interval
  tape_Z :: interval

text \<open>
  The result arena \<^verbatim>\<open>Result\<close>: per slot a row of values \<^verbatim>\<open>f\<close>, three rows of
  derivatives, an interval \<^verbatim>\<open>i\<close> and a Jacobian \<^verbatim>\<open>j\<close>. Rows are indexed by slot, then
  by column. The arrays are allocated by the constructor for every slot id of the tape
  and every column of the batch, so they are total functions here.
\<close>

record Result =
  res_f :: "nat \<Rightarrow> nat \<Rightarrow> flt"
  res_dx :: "nat \<Rightarrow> nat \<Rightarrow> flt"
  res_dy :: "nat \<Rightarrow> nat \<Rightarrow> flt"
  res_dz :: "nat \<Rightarrow> nat \<Rightarrow> flt"
  res_i :: "nat \<Rightarrow> interval"
  res_j :: "nat \<Rightarrow> flt list"

text \<open>
  The evaluator: the tape stack \<^verbatim>\<open>tapes\<close> with the cursor \<^verbatim>\<open>tape\<close> (an iterator into
  the list, here its position), the arena, the scratch arrays \<^verbatim>\<open>disabled\<close> and
  \<^verbatim>\<open>remap\<close> (sized by the constructor for every slot id), the axis slots, and the
  bimap \<^verbatim>\<open>vars\<close> of (slot, variable id) pairs in the order of \<^verbatim>\<open>vars.left\<close>.
\<close>

record Evaluator =
  tapes :: "Tape list"
  tape :: nat
  result :: Result
  disabled :: "nat \<Rightarrow> bool"
  remap :: "nat \<Rightarrow> nat"
  X_id :: nat
  Y_id :: nat
  Z_id :: nat
  vars :: "(nat \<times> nat) list"

text \<open>The tape under the cursor (\<^verbatim>\<open>*tape\<close>).\<close>

definition cur :: "Evaluator \<Rightarrow> Tape" where
  "cur s = tapes s ! tape s"

text \<open>
  Outcomes: \<open>None\<close> is a call that never returns, \<open>Some (Inl e)\<close> an abort (a failed
  assertion or a thrown exception), \<open>Some (Inr x)\<close> a normal return.
\<close>

datatype error = BadOpcode | StackUnderflow | ChoiceUnderrun | UnknownVariable | AssertionFailed

type_synonym 'a res = "(error + 'a) option"

definition res_bind :: "'a res \<Rightarrow> ('a \<Rightarrow> 'b res) \<Rightarrow> 'b res" where
  "res_bind m k = (case m of None \<Rightarrow> None | Some (Inl e) \<Rightarrow> Some (Inl e) | Some (Inr x) \<Rightarrow> k x)"

section \<open>The tape stack: pushTape, push, pop\<close>

text \<open>
  \<^verbatim>\<open>for (ra = c.a; remap[ra]; ra = remap[ra]);\<close> follows the remap table until an entry
  is zero. Nothing in the loop bounds it.
\<close>

partial_function (option) chase :: "(nat \<Rightarrow> nat) \<Rightarrow> nat \<Rightarrow> nat option" where
  "chase rm r = (if rm r = 0 then Some r else chase rm (rm r))"

text \<open>The loop of pushTape over the clauses of the previous tape, appending to the new one.\<close>

fun pushTape_loop ::
  "(nat \<Rightarrow> bool) \<Rightarrow> (nat \<Rightarrow> nat) \<Rightarrow> Clause list \<Rightarrow> Clause list \<Rightarrow> Clause list option" where
  "pushTape_loop d rm [] out = Some out"
| "pushTape_loop d rm (c # cs) out =
     (if \<not> d (clause_id c) then
        (case chase rm (clause_a c) of
           None \<Rightarrow> None
         | Some ra \<Rightarrow>
             (case chase rm (clause_b c) of
                None \<Rightarrow> None
              | Some rb \<Rightarrow>
                  pushTape_loop d rm cs
                    (out @ [\<lparr>clause_op = clause_op c, clause_id = clause_id c,
                             clause_a = ra, clause_b = rb\<rparr>])))
      else pushTape_loop d rm cs out)"

text \<open>A default-constructed \<^verbatim>\<open>Tape()\<close>.\<close>

definition new_Tape :: Tape where
  "new_Tape = \<lparr>tape_t = [], tape_i = 0, tape_type = ORIGINAL,
                tape_X = Interval (Fin 0) (Fin 0), tape_Y = Interval (Fin 0) (Fin 0),
                tape_Z = Interval (Fin 0) (Fin 0)\<rparr>"

text \<open>
  \<^verbatim>\<open>pushTape(t)\<close>: step the cursor, appending a tape when it reaches the end of the list
  and clearing the clauses of the tape it finds otherwise; set the type; copy the live
  clauses with remapped operands; remap the root; assert that the tape did not grow.
  (The assertion on \<^verbatim>\<open>capacity()\<close> is about allocated storage and has no counterpart.)
\<close>

definition pushTape :: "tape_type \<Rightarrow> Evaluator \<Rightarrow> Evaluator res" where
  "pushTape ty s =
     (let prev = cur s;
          k = Suc (tape s);
          ts = (if k = length (tapes s) then tapes s @ [new_Tape]
                else (tapes s)[k := (tapes s ! k)\<lparr>tape_t := []\<rparr>]);
          ts1 = ts[k := (ts ! k)\<lparr>tape_type := ty\<rparr>]
      in case pushTape_loop (disabled s) (remap s) (tape_t prev) (tape_t (ts1 ! k)) of
           None \<Rightarrow> None
         | Some cs \<Rightarrow>
             (case chase (remap s) (tape_i prev) of
                None \<Rightarrow> None
              | Some r \<Rightarrow>
                  if length cs \<le> length (tape_t prev)
                  then Some (Inr (s\<lparr>tapes := ts1[k := (ts1 ! k)\<lparr>tape_t := cs, tape_i := r\<rparr>],
                                    tape := k\<rparr>))
                  else Some (Inl AssertionFailed)))"

text \<open>The reset at the head of every push: fill both scratch arrays, mark the root live.\<close>

definition push_init :: "Evaluator \<Rightarrow> Evaluator" where
  "push_init s =
     (let s0 = s\<lparr>disabled := (\<lambda>_. True), remap := (\<lambda>_. 0)\<rparr>
      in s0\<lparr>disabled := (disabled s0)(tape_i (cur s0) := False)\<rparr>)"

text \<open>The tail of the loop body shared by the three pushes.\<close>

definition push_keep :: "Clause \<Rightarrow> Evaluator \<Rightarrow> Evaluator" where
  "push_keep c s =
     (if remap s (clause_id c) = 0
      then s\<lparr>disabled := (disabled s)(clause_a c := False, clause_b c := False)\<rparr>
      else s\<lparr>disabled := (disabled s)(clause_id c := True)\<rparr>)"

text \<open>\<^verbatim>\<open>disabled[x] = false; remap[c.id] = x;\<close>\<close>

definition collapse_to :: "Clause \<Rightarrow> nat \<Rightarrow> Evaluator \<Rightarrow> Evaluator" where
  "collapse_to c x s =
     s\<lparr>disabled := (disabled s)(x := False), remap := (remap s)(clause_id c := x)\<rparr>"

text \<open>
  The min/max block of the loop of \<^verbatim>\<open>push()\<close>: keep one branch when its interval is
  decisively above or below the other.
\<close>

definition push_minmax :: "Clause \<Rightarrow> Evaluator \<Rightarrow> Evaluator" where
  "push_minmax c s =
     (let ia = res_i (result s) (clause_a c);
          ib = res_i (result s) (clause_b c)
      in if clause_op c = OP_MAX then
           (if flt_gt (lower ia) (upper ib) then collapse_to c (clause_a c) s
            else if flt_gt (lower ib) (upper ia) then collapse_to c (clause_b c) s
            else s)
         else if clause_op c = OP_MIN then
           (if flt_gt (lower ia) (upper ib) then collapse_to c (clause_b c) s
            else if flt_gt (lower ib) (upper ia) then collapse_to c (clause_a c) s
            else s)
         else s)"

text \<open>The body of the loop of \<^verbatim>\<open>push()\<close> for one clause.\<close>

definition push_clause :: "Clause \<Rightarrow> Evaluator \<Rightarrow> Evaluator" where
  "push_clause c s =
     (if \<not> disabled s (clause_id c) then push_keep c (push_minmax c s) else s)"

text \<open>The state after the marking loop of \<^verbatim>\<open>push()\<close>, before pushTape.\<close>

definition push_marks :: "Evaluator \<Rightarrow> Evaluator" where
  "push_marks s = fold push_clause (tape_t (cur s)) (push_init s)"

text \<open>Store on the new tape the box the intervals were computed for.\<close>

definition set_box :: "Evaluator \<Rightarrow> Evaluator" where
  "set_box s =
     s\<lparr>tapes := (tapes s)[tape s := (cur s)\<lparr>tape_X := res_i (result s) (X_id s),
                                               tape_Y := res_i (result s) (Y_id s),
                                               tape_Z := res_i (result s) (Z_id s)\<rparr>]\<rparr>"

definition push :: "Evaluator \<Rightarrow> Evaluator res" where
  "push s = res_bind (pushTape INTERVAL (push_marks s)) (\<lambda>s'. Some (Inr (set_box s')))"

text \<open>\<^verbatim>\<open>pop()\<close>: the assertion, then the cursor steps back.\<close>

definition pop :: "Evaluator \<Rightarrow> Evaluator res" where
  "pop s = (if tape s = 0 then Some (Inl StackUnderflow) else Some (Inr (s\<lparr>tape := tape s - 1\<rparr>)))"

section \<open>The evaluation kernels\<close>

subsection \<open>The numeric library\<close>

text \<open>
  The elementwise float arithmetic the kernels call (Eigen array expressions and
  \<^verbatim>\<open>cmath\<close>) is a parameter of the model: one function per primitive. Every property
  below holds for whatever these functions compute. Float literals of the source are
  \<open>Fin\<close> values.
\<close>

record float_ops =
  fadd :: "flt \<Rightarrow> flt \<Rightarrow> flt"
  fsub :: "flt \<Rightarrow> flt \<Rightarrow> flt"
  fmul :: "flt \<Rightarrow> flt \<Rightarrow> flt"
  fdiv :: "flt \<Rightarrow> flt \<Rightarrow> flt"
  fmin :: "flt \<Rightarrow> flt \<Rightarrow> flt"
  fmax :: "flt \<Rightarrow> flt \<Rightarrow> flt"
  fatan2 :: "flt \<Rightarrow> flt \<Rightarrow> flt"
  fpow :: "flt \<Rightarrow> flt \<Rightarrow> flt"
  ffmod :: "flt \<Rightarrow> flt \<Rightarrow> flt"
  fsqrt :: "flt \<Rightarrow> flt"
  fneg :: "flt \<Rightarrow> flt"
  fsin :: "flt \<Rightarrow> flt"
  fcos :: "flt \<Rightarrow> flt"
  ftan :: "flt \<Rightarrow> flt"
  fasin :: "flt \<Rightarrow> flt"
  facos :: "flt \<Rightarrow> flt"
  fatan :: "flt \<Rightarrow> flt"
  fexp :: "flt \<Rightarrow> flt"

type_synonym vec3 = "flt \<times> flt \<times> flt"

type_synonym rows = "nat \<Rightarrow> nat \<Rightarrow> flt"

text \<open>
  Modelled from the spec: \<^verbatim>\<open>Evaluator::set(p, index)\<close> is defined in evaluator.hpp, which
  is not among the sources. It loads the point into column \<open>index\<close> of the value rows of
  the axis slots, as the interval overload in the source loads the box.
\<close>

definition set_point :: "vec3 \<Rightarrow> nat \<Rightarrow> Evaluator \<Rightarrow> Evaluator" where
  "set_point p index s =
     (case p of (px, py, pz) \<Rightarrow>
        (let m0 = res_f (result s);
             m1 = m0(X_id s := (m0 (X_id s))(index := px));
             m2 = m1(Y_id s := (m1 (Y_id s))(index := py));
             m3 = m2(Z_id s := (m2 (Z_id s))(index := pz))
         in s\<lparr>result := (result s)\<lparr>res_f := m3\<rparr>\<rparr>))"

text \<open>\<^verbatim>\<open>set(lower, upper)\<close>: the box goes into the interval slots of the axes.\<close>

definition set_interval :: "vec3 \<Rightarrow> vec3 \<Rightarrow> Evaluator \<Rightarrow> Evaluator" where
  "set_interval lo hi s =
     (case (lo, hi) of ((lx, ly, lz), (ux, uy, uz)) \<Rightarrow>
        (let i0 = res_i (result s);
             i1 = i0(X_id s := mk_interval lx ux);
             i2 = i1(Y_id s := mk_interval ly uy);
             i3 = i2(Z_id s := mk_interval lz uz)
         in s\<lparr>result := (result s)\<lparr>res_i := i3\<rparr>\<rparr>))"

subsection \<open>Values\<close>

text \<open>An assignment to \<^verbatim>\<open>row(i).head(count)\<close>: the first \<open>count\<close> columns of row \<open>i\<close>.\<close>

definition set_row :: "nat \<Rightarrow> nat \<Rightarrow> (nat \<Rightarrow> flt) \<Rightarrow> rows \<Rightarrow> rows" where
  "set_row count i e m = m(i := (\<lambda>k. if k < count then e k else m i k))"

text \<open>
  The inner loop of the \<^verbatim>\<open>MOD\<close> case, on one cell of the arena:
  \<^verbatim>\<open>while (out(i) < 0) out(i) += b(i);\<close>
\<close>

partial_function (option) mod_loop :: "float_ops \<Rightarrow> nat \<Rightarrow> nat \<Rightarrow> nat \<Rightarrow> rows \<Rightarrow> rows option" where
  "mod_loop N i b k m =
     (if flt_lt (m i k) (Fin 0)
      then mod_loop N i b k (m(i := (m i)(k := fadd N (m i k) (m b k))))
      else Some m)"

text \<open>The \<^verbatim>\<open>MOD\<close> case over the columns: \<^verbatim>\<open>out(i) = std::fmod(a(i), b(i))\<close>, then the loop.\<close>

fun mod_cols :: "float_ops \<Rightarrow> Clause \<Rightarrow> nat list \<Rightarrow> rows \<Rightarrow> rows option" where
  "mod_cols N c [] m = Some m"
| "mod_cols N c (k # ks) m =
     (case mod_loop N (clause_id c) (clause_b c) k
             (m(clause_id c := (m (clause_id c))(k := ffmod N (m (clause_a c) k) (m (clause_b c) k))))
      of None \<Rightarrow> None
       | Some m' \<Rightarrow> mod_cols N c ks m')"

text \<open>One clause of the switch in \<^verbatim>\<open>values(count)\<close>.\<close>

definition values_clause :: "float_ops \<Rightarrow> nat \<Rightarrow> Clause \<Rightarrow> rows \<Rightarrow> rows res" where
  "values_clause N count c m =
     (let a = m (clause_a c);
          b = m (clause_b c);
          out = (\<lambda>e. Some (Inr (set_row count (clause_id c) e m)))
      in case clause_op c of
           OP_ADD \<Rightarrow> out (\<lambda>k. fadd N (a k) (b k))
         | OP_MUL \<Rightarrow> out (\<lambda>k. fmul N (a k) (b k))
         | OP_MIN \<Rightarrow> out (\<lambda>k. fmin N (a k) (b k))
         | OP_MAX \<Rightarrow> out (\<lambda>k. fmax N (a k) (b k))
         | OP_SUB \<Rightarrow> out (\<lambda>k. fsub N (a k) (b k))
         | OP_DIV \<Rightarrow> out (\<lambda>k. fdiv N (a k) (b k))
         | OP_ATAN2 \<Rightarrow> out (\<lambda>k. fatan2 N (a k) (b k))
         | OP_POW \<Rightarrow> out (\<lambda>k. fpow N (a k) (b k))
         | OP_NTH_ROOT \<Rightarrow> out (\<lambda>k. fpow N (a k) (fdiv N (Fin 1) (b k)))
         | OP_MOD \<Rightarrow>
             (case mod_cols N c [0..<count] m of None \<Rightarrow> None | Some m' \<Rightarrow> Some (Inr m'))
         | OP_NANFILL \<Rightarrow> out (\<lambda>k. if a k = NaN then b k else a k)
         | OP_SQUARE \<Rightarrow> out (\<lambda>k. fmul N (a k) (a k))
         | OP_SQRT \<Rightarrow> out (\<lambda>k. fsqrt N (a k))
         | OP_NEG \<Rightarrow> out (\<lambda>k. fneg N (a k))
         | OP_SIN \<Rightarrow> out (\<lambda>k. fsin N (a k))
         | OP_COS \<Rightarrow> out (\<lambda>k. fcos N (a k))
         | OP_TAN \<Rightarrow> out (\<lambda>k. ftan N (a k))
         | OP_ASIN \<Rightarrow> out (\<lambda>k. fasin N (a k))
         | OP_ACOS \<Rightarrow> out (\<lambda>k. facos N (a k))
         | OP_ATAN \<Rightarrow> out (\<lambda>k. fatan N (a k))
         | OP_EXP \<Rightarrow> out (\<lambda>k. fexp N (a k))
         | OP_CONST_VAR \<Rightarrow> out a
         | OP_INVALID \<Rightarrow> Some (Inl BadOpcode)
         | OP_CONST \<Rightarrow> Some (Inl BadOpcode)
         | OP_VAR_X \<Rightarrow> Some (Inl BadOpcode)
         | OP_VAR_Y \<Rightarrow> Some (Inl BadOpcode)
         | OP_VAR_Z \<Rightarrow> Some (Inl BadOpcode)
         | OP_VAR \<Rightarrow> Some (Inl BadOpcode)
         | OP_LAST_OP \<Rightarrow> Some (Inl BadOpcode))"

text \<open>A kernel's sweep: the clauses in the order given, stopping at an abort or a hang.\<close>

fun run_clauses :: "(Clause \<Rightarrow> 'a \<Rightarrow> 'a res) \<Rightarrow> Clause list \<Rightarrow> 'a \<Rightarrow> 'a res" where
  "run_clauses step [] r = Some (Inr r)"
| "run_clauses step (c # cs) r = res_bind (step c r) (run_clauses step cs)"

text \<open>
  \<^verbatim>\<open>values(count)\<close> walks the tape from the back (\<^verbatim>\<open>rbegin\<close> to \<^verbatim>\<open>rend\<close>). The pointer it
  returns is the value row of the root, \<open>root_values\<close> of the state it leaves.
\<close>

definition values_kernel :: "float_ops \<Rightarrow> nat \<Rightarrow> Evaluator \<Rightarrow> Evaluator res" where
  "values_kernel N count s =
     res_bind (run_clauses (values_clause N count) (rev (tape_t (cur s))) (res_f (result s)))
       (\<lambda>m. Some (Inr (s\<lparr>result := (result s)\<lparr>res_f := m\<rparr>\<rparr>)))"

definition root_values :: "Evaluator \<Rightarrow> nat \<Rightarrow> flt" where
  "root_values s = res_f (result s) (tape_i (cur s))"

text \<open>\<^verbatim>\<open>eval(p)\<close>: \<^verbatim>\<open>set(p, 0); return values(1)[0];\<close>\<close>

definition eval :: "float_ops \<Rightarrow> vec3 \<Rightarrow> Evaluator \<Rightarrow> (flt \<times> Evaluator) res" where
  "eval N p s =
     res_bind (values_kernel N 1 (set_point p 0 s)) (\<lambda>s'. Some (Inr (root_values s' 0, s')))"

subsection \<open>Spatial derivatives\<close>

text \<open>
  The row macros of \<^verbatim>\<open>derivs(count)\<close>: \<^verbatim>\<open>ov\<close>, \<^verbatim>\<open>av\<close>, \<^verbatim>\<open>bv\<close> read the value rows of
  the clause's slots, \<^verbatim>\<open>adx\<close> and the others the derivative rows.
\<close>

abbreviation ov_of :: "Clause \<Rightarrow> Result \<Rightarrow> nat \<Rightarrow> flt" where "ov_of c r k \<equiv> res_f r (clause_id c) k"
abbreviation av_of :: "Clause \<Rightarrow> Result \<Rightarrow> nat \<Rightarrow> flt" where "av_of c r k \<equiv> res_f r (clause_a c) k"
abbreviation bv_of :: "Clause \<Rightarrow> Result \<Rightarrow> nat \<Rightarrow> flt" where "bv_of c r k \<equiv> res_f r (clause_b c) k"
abbreviation odz_of :: "Clause \<Rightarrow> Result \<Rightarrow> nat \<Rightarrow> flt" where "odz_of c r k \<equiv> res_dz r (clause_id c) k"
abbreviation adx_of :: "Clause \<Rightarrow> Result \<Rightarrow> nat \<Rightarrow> flt" where "adx_of c r k \<equiv> res_dx r (clause_a c) k"
abbreviation ady_of :: "Clause \<Rightarrow> Result \<Rightarrow> nat \<Rightarrow> flt" where "ady_of c r k \<equiv> res_dy r (clause_a c) k"
abbreviation adz_of :: "Clause \<Rightarrow> Result \<Rightarrow> nat \<Rightarrow> flt" where "adz_of c r k \<equiv> res_dz r (clause_a c) k"
abbreviation bdx_of :: "Clause \<Rightarrow> Result \<Rightarrow> nat \<Rightarrow> flt" where "bdx_of c r k \<equiv> res_dx r (clause_b c) k"
abbreviation bdy_of :: "Clause \<Rightarrow> Result \<Rightarrow> nat \<Rightarrow> flt" where "bdy_of c r k \<equiv> res_dy r (clause_b c) k"
abbreviation bdz_of :: "Clause \<Rightarrow> Result \<Rightarrow> nat \<Rightarrow> flt" where "bdz_of c r k \<equiv> res_dz r (clause_b c) k"

text \<open>
  An assignment to \<^verbatim>\<open>odx\<close>, \<^verbatim>\<open>ody\<close> or \<^verbatim>\<open>odz\<close>; its right-hand side reads the arena as
  the assignments before it left it (the source keeps temporaries in \<^verbatim>\<open>odz\<close>).
\<close>

definition put_dx :: "nat \<Rightarrow> Clause \<Rightarrow> (Result \<Rightarrow> nat \<Rightarrow> flt) \<Rightarrow> Result \<Rightarrow> Result" where
  "put_dx n c e r = r\<lparr>res_dx := set_row n (clause_id c) (e r) (res_dx r)\<rparr>"

definition put_dy :: "nat \<Rightarrow> Clause \<Rightarrow> (Result \<Rightarrow> nat \<Rightarrow> flt) \<Rightarrow> Result \<Rightarrow> Result" where
  "put_dy n c e r = r\<lparr>res_dy := set_row n (clause_id c) (e r) (res_dy r)\<rparr>"

definition put_dz :: "nat \<Rightarrow> Clause \<Rightarrow> (Result \<Rightarrow> nat \<Rightarrow> flt) \<Rightarrow> Result \<Rightarrow> Result" where
  "put_dz n c e r = r\<lparr>res_dz := set_row n (clause_id c) (e r) (res_dz r)\<rparr>"

text \<open>One clause of the switch in \<^verbatim>\<open>derivs(count)\<close>: its assignments, in the source's order.\<close>

definition derivs_clause :: "float_ops \<Rightarrow> nat \<Rightarrow> Clause \<Rightarrow> Result \<Rightarrow> Result res" where
  "derivs_clause N n c r0 =
     (let run = (\<lambda>us. Some (Inr (fold (\<lambda>u r. u r) us r0)))
      in case clause_op c of
           OP_ADD \<Rightarrow>
             run [put_dx n c (\<lambda>r k. fadd N (adx_of c r k) (bdx_of c r k)),
                  put_dy n c (\<lambda>r k. fadd N (ady_of c r k) (bdy_of c r k)),
                  put_dz n c (\<lambda>r k. fadd N (adz_of c r k) (bdz_of c r k))]
         | OP_MUL \<Rightarrow>
             run [put_dx n c (\<lambda>r k. fadd N (fmul N (av_of c r k) (bdx_of c r k)) (fmul N (adx_of c r k) (bv_of c r k))),
                  put_dy n c (\<lambda>r k. fadd N (fmul N (av_of c r k) (bdy_of c r k)) (fmul N (ady_of c r k) (bv_of c r k))),
                  put_dz n c (\<lambda>r k. fadd N (fmul N (av_of c r k) (bdz_of c r k)) (fmul N (adz_of c r k) (bv_of c r k)))]
         | OP_MIN \<Rightarrow>
             run [put_dx n c (\<lambda>r k. if flt_lt (av_of c r k) (bv_of c r k) then adx_of c r k else bdx_of c r k),
                  put_dy n c (\<lambda>r k. if flt_lt (av_of c r k) (bv_of c r k) then ady_of c r k else bdy_of c r k),
                  put_dz n c (\<lambda>r k. if flt_lt (av_of c r k) (bv_of c r k) then adz_of c r k else bdz_of c r k)]
         | OP_MAX \<Rightarrow>
             run [put_dx n c (\<lambda>r k. if flt_lt (av_of c r k) (bv_of c r k) then bdx_of c r k else adx_of c r k),
                  put_dy n c (\<lambda>r k. if flt_lt (av_of c r k) (bv_of c r k) then bdy_of c r k else ady_of c r k),
                  put_dz n c (\<lambda>r k. if flt_lt (av_of c r k) (bv_of c r k) then bdz_of c r k else adz_of c r k)]
         | OP_SUB \<Rightarrow>
             run [put_dx n c (\<lambda>r k. fsub N (adx_of c r k) (bdx_of c r k)),
                  put_dy n c (\<lambda>r k. fsub N (ady_of c r k) (bdy_of c r k)),
                  put_dz n c (\<lambda>r k. fsub N (adz_of c r k) (bdz_of c r k))]
         | OP_DIV \<Rightarrow>
             run [put_dz n c (\<lambda>r k. fpow N (bv_of c r k) (Fin 2)),
                  put_dx n c (\<lambda>r k. fdiv N (fsub N (fmul N (bv_of c r k) (adx_of c r k)) (fmul N (av_of c r k) (bdx_of c r k))) (odz_of c r k)),
                  put_dy n c (\<lambda>r k. fdiv N (fsub N (fmul N (bv_of c r k) (ady_of c r k)) (fmul N (av_of c r k) (bdy_of c r k))) (odz_of c r k)),
                  put_dz n c (\<lambda>r k. fdiv N (fsub N (fmul N (bv_of c r k) (adz_of c r k)) (fmul N (av_of c r k) (bdz_of c r k))) (odz_of c r k))]
         | OP_ATAN2 \<Rightarrow>
             run [put_dz n c (\<lambda>r k. fadd N (fpow N (av_of c r k) (Fin 2)) (fpow N (bv_of c r k) (Fin 2))),
                  put_dx n c (\<lambda>r k. fdiv N (fsub N (fmul N (adx_of c r k) (bv_of c r k)) (fmul N (av_of c r k) (bdx_of c r k))) (odz_of c r k)),
                  put_dy n c (\<lambda>r k. fdiv N (fsub N (fmul N (ady_of c r k) (bv_of c r k)) (fmul N (av_of c r k) (bdy_of c r k))) (odz_of c r k)),
                  put_dz n c (\<lambda>r k. fdiv N (fsub N (fmul N (adz_of c r k) (bv_of c r k)) (fmul N (av_of c r k) (bdz_of c r k))) (odz_of c r k))]
         | OP_POW \<Rightarrow>
             run [put_dz n c (\<lambda>r k. fpow N (av_of c r k) (fsub N (bv_of c r k) (Fin 1))),
                  put_dx n c (\<lambda>r k. fmul N (odz_of c r k) (fmul N (bv_of c r k) (adx_of c r k))),
                  put_dy n c (\<lambda>r k. fmul N (odz_of c r k) (fmul N (bv_of c r k) (ady_of c r k))),
                  put_dz n c (\<lambda>r k. fmul N (odz_of c r k) (fmul N (bv_of c r k) (adz_of c r k)))]
         | OP_NTH_ROOT \<Rightarrow>
             run [put_dz n c (\<lambda>r k. fdiv N (Fin 1) (bv_of c r k)),
                  put_dz n c (\<lambda>r k. fmul N (fpow N (av_of c r k) (fsub N (odz_of c r k) (Fin 1))) (odz_of c r k)),
                  put_dx n c (\<lambda>r k. fmul N (odz_of c r k) (adx_of c r k)),
                  put_dy n c (\<lambda>r k. fmul N (odz_of c r k) (ady_of c r k)),
                  put_dz n c (\<lambda>r k. fmul N (odz_of c r k) (adz_of c r k))]
         | OP_MOD \<Rightarrow>
             run [put_dx n c (\<lambda>r k. adx_of c r k),
                  put_dy n c (\<lambda>r k. ady_of c r k),
                  put_dz n c (\<lambda>r k. adz_of c r k)]
         | OP_NANFILL \<Rightarrow>
             run [put_dx n c (\<lambda>r k. if av_of c r k = NaN then bdx_of c r k else adx_of c r k),
                  put_dy n c (\<lambda>r k. if av_of c r k = NaN then bdy_of c r k else ady_of c r k),
                  put_dz n c (\<lambda>r k. if av_of c r k = NaN then bdz_of c r k else adz_of c r k)]
         | OP_SQUARE \<Rightarrow>
             run [put_dz n c (\<lambda>r k. fmul N (Fin 2) (av_of c r k)),
                  put_dx n c (\<lambda>r k. fmul N (odz_of c r k) (adx_of c r k)),
                  put_dy n c (\<lambda>r k. fmul N (odz_of c r k) (ady_of c r k)),
                  put_dz n c (\<lambda>r k. fmul N (odz_of c r k) (adz_of c r k))]
         | OP_SQRT \<Rightarrow>
             run [put_dx n c (\<lambda>r k. if flt_lt (av_of c r k) (Fin 0) then Fin 0 else fdiv N (adx_of c r k) (fmul N (Fin 2) (ov_of c r k))),
                  put_dy n c (\<lambda>r k. if flt_lt (av_of c r k) (Fin 0) then Fin 0 else fdiv N (ady_of c r k) (fmul N (Fin 2) (ov_of c r k))),
                  put_dz n c (\<lambda>r k. if flt_lt (av_of c r k) (Fin 0) then Fin 0 else fdiv N (adz_of c r k) (fmul N (Fin 2) (ov_of c r k)))]
         | OP_NEG \<Rightarrow>
             run [put_dx n c (\<lambda>r k. fneg N (adx_of c r k)),
                  put_dy n c (\<lambda>r k. fneg N (ady_of c r k)),
                  put_dz n c (\<lambda>r k. fneg N (adz_of c r k))]
         | OP_SIN \<Rightarrow>
             run [put_dz n c (\<lambda>r k. fcos N (av_of c r k)),
                  put_dx n c (\<lambda>r k. fmul N (adx_of c r k) (odz_of c r k)),
                  put_dy n c (\<lambda>r k. fmul N (ady_of c r k) (odz_of c r k)),
                  put_dz n c (\<lambda>r k. fmul N (adz_of c r k) (odz_of c r k))]
         | OP_COS \<Rightarrow>
             run [put_dz n c (\<lambda>r k. fneg N (fsin N (av_of c r k))),
                  put_dx n c (\<lambda>r k. fmul N (adx_of c r k) (odz_of c r k)),
                  put_dy n c (\<lambda>r k. fmul N (ady_of c r k) (odz_of c r k)),
                  put_dz n c (\<lambda>r k. fmul N (adz_of c r k) (odz_of c r k))]
         | OP_TAN \<Rightarrow>
             run [put_dz n c (\<lambda>r k. fpow N (fdiv N (Fin 1) (fcos N (av_of c r k))) (Fin 2)),
                  put_dx n c (\<lambda>r k. fmul N (adx_of c r k) (odz_of c r k)),
                  put_dy n c (\<lambda>r k. fmul N (ady_of c r k) (odz_of c r k)),
                  put_dz n c (\<lambda>r k. fmul N (adz_of c r k) (odz_of c r k))]
         | OP_ASIN \<Rightarrow>
             run [put_dz n c (\<lambda>r k. fsqrt N (fsub N (Fin 1) (fpow N (av_of c r k) (Fin 2)))),
                  put_dx n c (\<lambda>r k. fdiv N (adx_of c r k) (odz_of c r k)),
                  put_dy n c (\<lambda>r k. fdiv N (ady_of c r k) (odz_of c r k)),
                  put_dz n c (\<lambda>r k. fdiv N (adz_of c r k) (odz_of c r k))]
         | OP_ACOS \<Rightarrow>
             run [put_dz n c (\<lambda>r k. fneg N (fsqrt N (fsub N (Fin 1) (fpow N (av_of c r k) (Fin 2))))),
                  put_dx n c (\<lambda>r k. fdiv N (adx_of c r k) (odz_of c r k)),
                  put_dy n c (\<lambda>r k. fdiv N (ady_of c r k) (odz_of c r k)),
                  put_dz n c (\<lambda>r k. fdiv N (adz_of c r k) (odz_of c r k))]
         | OP_ATAN \<Rightarrow>
             run [put_dz n c (\<lambda>r k. fadd N (fpow N (av_of c r k) (Fin 2)) (Fin 1)),
                  put_dx n c (\<lambda>r k. fdiv N (adx_of c r k) (odz_of c r k)),
                  put_dy n c (\<lambda>r k. fdiv N (ady_of c r k) (odz_of c r k)),
                  put_dz n c (\<lambda>r k. fdiv N (adz_of c r k) (odz_of c r k))]
         | OP_EXP \<Rightarrow>
             run [put_dz n c (\<lambda>r k. fexp N (av_of c r k)),
                  put_dx n c (\<lambda>r k. fmul N (odz_of c r k) (adx_of c r k)),
                  put_dy n c (\<lambda>r k. fmul N (odz_of c r k) (ady_of c r k)),
                  put_dz n c (\<lambda>r k. fmul N (odz_of c r k) (adz_of c r k))]
         | OP_CONST_VAR \<Rightarrow>
             run [put_dx n c (\<lambda>r k. adx_of c r k),
                  put_dy n c (\<lambda>r k. ady_of c r k),
                  put_dz n c (\<lambda>r k. adz_of c r k)]
         | OP_INVALID \<Rightarrow> Some (Inl BadOpcode)
         | OP_CONST \<Rightarrow> Some (Inl BadOpcode)
         | OP_VAR_X \<Rightarrow> Some (Inl BadOpcode)
         | OP_VAR_Y \<Rightarrow> Some (Inl BadOpcode)
         | OP_VAR_Z \<Rightarrow> Some (Inl BadOpcode)
         | OP_VAR \<Rightarrow> Some (Inl BadOpcode)
         | OP_LAST_OP \<Rightarrow> Some (Inl BadOpcode))"

text \<open>
  \<^verbatim>\<open>derivs(count)\<close>: the values first, then the derivative sweep from the back of the tape.
  The four pointers it returns are the rows of the root; \<open>root_derivs\<close> reads them.
\<close>

definition derivs_kernel :: "float_ops \<Rightarrow> nat \<Rightarrow> Evaluator \<Rightarrow> Evaluator res" where
  "derivs_kernel N count s =
     res_bind (values_kernel N count s)
       (\<lambda>s1. res_bind (run_clauses (derivs_clause N count) (rev (tape_t (cur s1))) (result s1))
          (\<lambda>r. Some (Inr (s1\<lparr>result := r\<rparr>))))"

definition root_derivs :: "Evaluator \<Rightarrow> nat \<Rightarrow> flt \<times> flt \<times> flt \<times> flt" where
  "root_derivs s k =
     (res_f (result s) (tape_i (cur s)) k, res_dx (result s) (tape_i (cur s)) k,
      res_dy (result s) (tape_i (cur s)) k, res_dz (result s) (tape_i (cur s)) k)"

subsection \<open>Intervals\<close>

text \<open>The interval primitives of boost, one function per primitive, are a parameter too.\<close>

record interval_ops =
  iadd :: "interval \<Rightarrow> interval \<Rightarrow> interval"
  imul :: "interval \<Rightarrow> interval \<Rightarrow> interval"
  imin :: "interval \<Rightarrow> interval \<Rightarrow> interval"
  imax :: "interval \<Rightarrow> interval \<Rightarrow> interval"
  isub :: "interval \<Rightarrow> interval \<Rightarrow> interval"
  idiv :: "interval \<Rightarrow> interval \<Rightarrow> interval"
  iatan2 :: "interval \<Rightarrow> interval \<Rightarrow> interval"
  ipow :: "interval \<Rightarrow> flt \<Rightarrow> interval"
  inth_root :: "interval \<Rightarrow> flt \<Rightarrow> interval"
  isquare :: "interval \<Rightarrow> interval"
  isqrt :: "interval \<Rightarrow> interval"
  ineg :: "interval \<Rightarrow> interval"
  isin :: "interval \<Rightarrow> interval"
  icos :: "interval \<Rightarrow> interval"
  itan :: "interval \<Rightarrow> interval"
  iasin :: "interval \<Rightarrow> interval"
  iacos :: "interval \<Rightarrow> interval"
  iatan :: "interval \<Rightarrow> interval"
  iexp :: "interval \<Rightarrow> interval"

definition eval_clause_interval ::
  "interval_ops \<Rightarrow> opcode \<Rightarrow> interval \<Rightarrow> interval \<Rightarrow> interval res" where
  "eval_clause_interval B opc a b =
     (case opc of
           OP_ADD \<Rightarrow> Some (Inr (iadd B a b))
         | OP_MUL \<Rightarrow> Some (Inr (imul B a b))
         | OP_MIN \<Rightarrow> Some (Inr (imin B a b))
         | OP_MAX \<Rightarrow> Some (Inr (imax B a b))
         | OP_SUB \<Rightarrow> Some (Inr (isub B a b))
         | OP_DIV \<Rightarrow> Some (Inr (idiv B a b))
         | OP_ATAN2 \<Rightarrow> Some (Inr (iatan2 B a b))
         | OP_POW \<Rightarrow> Some (Inr (ipow B a (lower b)))
         | OP_NTH_ROOT \<Rightarrow> Some (Inr (inth_root B a (lower b)))
         | OP_MOD \<Rightarrow> Some (Inr (mk_interval (Fin 0) (upper b)))
         | OP_NANFILL \<Rightarrow> Some (Inr (if lower a = NaN \<or> upper a = NaN then b else a))
         | OP_SQUARE \<Rightarrow> Some (Inr (isquare B a))
         | OP_SQRT \<Rightarrow> Some (Inr (isqrt B a))
         | OP_NEG \<Rightarrow> Some (Inr (ineg B a))
         | OP_SIN \<Rightarrow> Some (Inr (isin B a))
         | OP_COS \<Rightarrow> Some (Inr (icos B a))
         | OP_TAN \<Rightarrow> Some (Inr (itan B a))
         | OP_ASIN \<Rightarrow> Some (Inr (iasin B a))
         | OP_ACOS \<Rightarrow> Some (Inr (iacos B a))
         | OP_ATAN \<Rightarrow> Some (Inr (iatan B a))
         | OP_EXP \<Rightarrow> Some (Inr (iexp B a))
         | OP_CONST_VAR \<Rightarrow> Some (Inr a)
         | OP_INVALID \<Rightarrow> Some (Inl BadOpcode)
         | OP_CONST \<Rightarrow> Some (Inl BadOpcode)
         | OP_VAR_X \<Rightarrow> Some (Inl BadOpcode)
         | OP_VAR_Y \<Rightarrow> Some (Inl BadOpcode)
         | OP_VAR_Z \<Rightarrow> Some (Inl BadOpcode)
         | OP_VAR \<Rightarrow> Some (Inl BadOpcode)
         | OP_LAST_OP \<Rightarrow> Some (Inl BadOpcode))"

definition interval_clause ::
  "interval_ops \<Rightarrow> Clause \<Rightarrow> (nat \<Rightarrow> interval) \<Rightarrow> (nat \<Rightarrow> interval) res" where
  "interval_clause B c m =
     res_bind (eval_clause_interval B (clause_op c) (m (clause_a c)) (m (clause_b c)))
       (\<lambda>v. Some (Inr (m(clause_id c := v))))"

text \<open>\<^verbatim>\<open>interval()\<close>: the sweep, then the interval of the root.\<close>

definition interval_kernel :: "interval_ops \<Rightarrow> Evaluator \<Rightarrow> (interval \<times> Evaluator) res" where
  "interval_kernel B s =
     res_bind (run_clauses (interval_clause B) (rev (tape_t (cur s))) (res_i (result s)))
       (\<lambda>m. Some (Inr (m (tape_i (cur s)), s\<lparr>result := (result s)\<lparr>res_i := m\<rparr>\<rparr>)))"

text \<open>\<^verbatim>\<open>eval(lower, upper)\<close>: \<^verbatim>\<open>set(lower, upper); return interval();\<close>\<close>

definition eval_interval ::
  "interval_ops \<Rightarrow> vec3 \<Rightarrow> vec3 \<Rightarrow> Evaluator \<Rightarrow> (interval \<times> Evaluator) res" where
  "eval_interval B lo hi s = interval_kernel B (set_interval lo hi s)"

subsection \<open>Jacobians with respect to the free variables\<close>




section \<open>Specialization, ambiguity and variables\<close>

text \<open>The min/max block of \<^verbatim>\<open>specialize(p)\<close>: as in \<^verbatim>\<open>push()\<close>, on the values of column 0.\<close>

definition specialize_minmax :: "Clause \<Rightarrow> Evaluator \<Rightarrow> Evaluator" where
  "specialize_minmax c s =
     (let fa = res_f (result s) (clause_a c) 0;
          fb = res_f (result s) (clause_b c) 0
      in if clause_op c = OP_MAX then
           (if flt_gt fa fb then collapse_to c (clause_a c) s
            else if flt_gt fb fa then collapse_to c (clause_b c) s
            else s)
         else if clause_op c = OP_MIN then
           (if flt_gt fa fb then collapse_to c (clause_b c) s
            else if flt_gt fb fa then collapse_to c (clause_a c) s
            else s)
         else s)"

definition specialize_clause :: "Clause \<Rightarrow> Evaluator \<Rightarrow> Evaluator" where
  "specialize_clause c s =
     (if \<not> disabled s (clause_id c) then push_keep c (specialize_minmax c s) else s)"

definition specialize_marks :: "Evaluator \<Rightarrow> Evaluator" where
  "specialize_marks s = fold specialize_clause (tape_t (cur s)) (push_init s)"

definition specialize :: "float_ops \<Rightarrow> vec3 \<Rightarrow> Evaluator \<Rightarrow> Evaluator res" where
  "specialize N p s =
     res_bind (eval N p s) (\<lambda>(v, s1). pushTape SPECIALIZED (specialize_marks s1))"

text \<open>\<^verbatim>\<open>isAmbiguous()\<close>: a min or max of the current tape whose operands tie in column 0.\<close>

definition isAmbiguous :: "Evaluator \<Rightarrow> bool" where
  "isAmbiguous s =
     list_ex (\<lambda>c. (clause_op c = OP_MIN \<or> clause_op c = OP_MAX) \<and>
                  flt_eq (res_f (result s) (clause_a c) 0) (res_f (result s) (clause_b c) 0))
       (tape_t (cur s))"

text \<open>
  \<^verbatim>\<open>baseEval(p)\<close>: step the cursor down while it is not at the base and the tape under it
  is not an interval tape whose box holds the point; evaluate there; put the cursor back.
\<close>

definition box_contains :: "Tape \<Rightarrow> vec3 \<Rightarrow> bool" where
  "box_contains tp p =
     (case p of (px, py, pz) \<Rightarrow>
        flt_ge px (lower (tape_X tp)) \<and> flt_le px (upper (tape_X tp)) \<and>
        flt_ge py (lower (tape_Y tp)) \<and> flt_le py (upper (tape_Y tp)) \<and>
        flt_ge pz (lower (tape_Z tp)) \<and> flt_le pz (upper (tape_Z tp)))"

fun baseEval_walk :: "vec3 \<Rightarrow> Tape list \<Rightarrow> nat \<Rightarrow> nat" where
  "baseEval_walk p ts 0 = 0"
| "baseEval_walk p ts (Suc k) =
     (if tape_type (ts ! Suc k) = INTERVAL \<and> box_contains (ts ! Suc k) p then Suc k
      else baseEval_walk p ts k)"

definition baseEval :: "float_ops \<Rightarrow> vec3 \<Rightarrow> Evaluator \<Rightarrow> (flt \<times> Evaluator) res" where
  "baseEval N p s =
     (let prev_tape = tape s
      in res_bind (eval N p (s\<lparr>tape := baseEval_walk p (tapes s) (tape s)\<rparr>))
           (\<lambda>(out, s1). Some (Inr (out, s1\<lparr>tape := prev_tape\<rparr>))))"

text \<open>
  Modelled from the spec: \<^verbatim>\<open>Result::setValue(v, slot)\<close> is defined in result.hpp, which is
  not among the sources. It writes \<open>v\<close> to the value row of the slot.
\<close>

definition setValue :: "flt \<Rightarrow> nat \<Rightarrow> Result \<Rightarrow> Result" where
  "setValue v slot r = r\<lparr>res_f := (res_f r)(slot := (\<lambda>_. v))\<rparr>"

text \<open>\<^verbatim>\<open>setVar(var, value)\<close>: look the variable up on the right of the bimap.\<close>

definition setVar :: "nat \<Rightarrow> flt \<Rightarrow> Evaluator \<Rightarrow> Evaluator" where
  "setVar var v s =
     (case find (\<lambda>e. snd e = var) (vars s) of
        None \<Rightarrow> s
      | Some e \<Rightarrow> s\<lparr>result := setValue v (fst e) (result s)\<rparr>)"

definition varValues :: "Evaluator \<Rightarrow> (nat \<rightharpoonup> flt)" where
  "varValues s =
     fold (\<lambda>e out. out(snd e \<mapsto> res_f (result s) (fst e) 0)) (vars s) Map.empty"

text \<open>
  \<^verbatim>\<open>updateVars(vars_)\<close>: for each registered variable, \<^verbatim>\<open>vars_.at\<close> (which throws for a
  missing key), the comparison with the stored value of column 0, and \<^verbatim>\<open>setVar\<close>.
\<close>

fun updateVars_loop ::
  "(nat \<rightharpoonup> flt) \<Rightarrow> (nat \<times> nat) list \<Rightarrow> bool \<Rightarrow> Evaluator \<Rightarrow> (bool \<times> Evaluator) res" where
  "updateVars_loop m [] changed s = Some (Inr (changed, s))"
| "updateVars_loop m (e # es) changed s =
     (case m (snd e) of
        None \<Rightarrow> Some (Inl UnknownVariable)
      | Some val \<Rightarrow>
          if flt_ne val (res_f (result s) (fst e) 0)
          then updateVars_loop m es True (setVar (snd e) val s)
          else updateVars_loop m es changed s)"

definition updateVars :: "(nat \<rightharpoonup> flt) \<Rightarrow> Evaluator \<Rightarrow> (bool \<times> Evaluator) res" where
  "updateVars m s = updateVars_loop m (vars s) False s"

section \<open>Features\<close>

text \<open>
  \<^verbatim>\<open>Feature\<close> (ao/eval/feature.hpp) is not among the sources. Its operations, and the
  \<^verbatim>\<open>Eigen::Vector3d\<close> arithmetic done on its directions, are a parameter: \<open>'f\<close> is the
  type of features, and every property below holds for whatever the operations do.
  \<^verbatim>\<open>Feature::push\<close> returns whether it accepted the choice, and the feature it leaves.
\<close>

record Choice =
  choice_id :: nat
  choice_choice :: int

record 'f feature_ops =
  feature_new :: "'f"
  feature_getChoices :: "'f \<Rightarrow> Choice list"
  feature_hasEpsilon :: "'f \<Rightarrow> nat \<Rightarrow> bool"
  feature_getEpsilon :: "'f \<Rightarrow> nat \<Rightarrow> vec3"
  feature_push_raw :: "Choice \<Rightarrow> vec3 \<Rightarrow> 'f \<Rightarrow> 'f"
  feature_push_choice_raw :: "Choice \<Rightarrow> 'f \<Rightarrow> 'f"
  feature_push :: "vec3 \<Rightarrow> Choice \<Rightarrow> 'f \<Rightarrow> bool \<times> 'f"
  feature_push_choice :: "Choice \<Rightarrow> 'f \<Rightarrow> 'f"
  feature_isCompatible :: "'f \<Rightarrow> vec3 \<Rightarrow> bool"
  feature_deriv :: "'f \<Rightarrow> vec3"
  feature_set_deriv :: "vec3 \<Rightarrow> 'f \<Rightarrow> 'f"
  vec_sub :: "vec3 \<Rightarrow> vec3 \<Rightarrow> vec3"
  vec_neg :: "vec3 \<Rightarrow> vec3"
  vec_norm :: "vec3 \<Rightarrow> flt"

text \<open>
  The body of the loop of \<^verbatim>\<open>push(const Feature& f)\<close> for one clause. The state is the
  evaluator, the feature \<^verbatim>\<open>out\<close> and the choices not yet consumed (\<^verbatim>\<open>itr\<close>).
\<close>

definition push_feature_clause ::
  "'f feature_ops \<Rightarrow> 'f \<Rightarrow> Clause \<Rightarrow> Evaluator \<times> 'f \<times> Choice list \<Rightarrow> Evaluator \<times> 'f \<times> Choice list" where
  "push_feature_clause F f c st =
     (case st of (s, out, itr) \<Rightarrow>
        (let match =
               (case itr of
                  [] \<Rightarrow> False
                | ch # _ \<Rightarrow>
                    (flt_eq (res_f (result s) (clause_a c) 0) (res_f (result s) (clause_b c) 0)
                       \<or> clause_a c = clause_b c) \<and>
                    (clause_op c = OP_MAX \<or> clause_op c = OP_MIN) \<and>
                    choice_id ch = clause_id c);
             st1 =
               (if \<not> disabled s (clause_id c) then
                  (let st2 =
                         (if match then
                            (let ch = hd itr;
                                 out2 = (if feature_hasEpsilon F f (clause_id c)
                                         then feature_push_raw F ch
                                                (feature_getEpsilon F f (clause_id c)) out
                                         else feature_push_choice_raw F ch out);
                                 s2 = (if choice_choice ch = 0
                                       then collapse_to c (clause_a c) s
                                       else collapse_to c (clause_b c) s)
                             in (s2, out2))
                          else (s, out))
                   in (push_keep c (fst st2), snd st2))
                else (s, out))
         in (fst st1, snd st1, if match then tl itr else itr)))"

definition push_feature_marks ::
  "'f feature_ops \<Rightarrow> 'f \<Rightarrow> Evaluator \<Rightarrow> Evaluator \<times> 'f \<times> Choice list" where
  "push_feature_marks F f s =
     fold (push_feature_clause F f) (tape_t (cur s))
       (push_init s, feature_set_deriv F (feature_deriv F f) (feature_new F),
        feature_getChoices F f)"

text \<open>\<^verbatim>\<open>push(const Feature& f)\<close>: the loop, the assertion on the choices, pushTape.\<close>

definition push_feature :: "'f feature_ops \<Rightarrow> 'f \<Rightarrow> Evaluator \<Rightarrow> ('f \<times> Evaluator) res" where
  "push_feature F f s =
     (case push_feature_marks F f s of (s1, out, itr) \<Rightarrow>
        if itr \<noteq> [] then Some (Inl ChoiceUnderrun)
        else res_bind (pushTape FEATURE s1) (\<lambda>s2. Some (Inr (out, s2))))"

text \<open>
  The scan of \<^verbatim>\<open>featuresAt\<close> over the pushed tape, from the back, until a clause made the
  feature \<open>f'\<close> ambiguous. It returns the worklist and the flag.
\<close>

fun featuresAt_scan ::
  "'f feature_ops \<Rightarrow> Result \<Rightarrow> 'f \<Rightarrow> Clause list \<Rightarrow> 'f list \<Rightarrow> bool \<Rightarrow> 'f list \<times> bool" where
  "featuresAt_scan F r f' [] todo ambiguous = (todo, ambiguous)"
| "featuresAt_scan F r f' (c # cs) todo ambiguous =
     (if ambiguous then (todo, ambiguous)
      else if clause_op c = OP_MIN \<or> clause_op c = OP_MAX then
        (if clause_a c = clause_b c then
           featuresAt_scan F r f' cs
             (todo @ [feature_push_choice F \<lparr>choice_id = clause_id c, choice_choice = 0\<rparr> f'])
             True
         else if flt_eq (res_f r (clause_a c) 0) (res_f r (clause_b c) 0) then
           (let rhs = (res_dx r (clause_b c) 0, res_dy r (clause_b c) 0, res_dz r (clause_b c) 0);
                lhs = (res_dx r (clause_a c) 0, res_dy r (clause_a c) 0, res_dz r (clause_a c) 0);
                epsilon = (if clause_op c = OP_MIN then vec_sub F rhs lhs else vec_sub F lhs rhs);
                fa = feature_push F epsilon \<lparr>choice_id = clause_id c, choice_choice = 0\<rparr> f';
                st1 = (if fst fa then (todo @ [snd fa], True) else (todo, ambiguous));
                fb = feature_push F (vec_neg F epsilon)
                       \<lparr>choice_id = clause_id c, choice_choice = 1\<rparr> f';
                st2 = (if fst fb then (fst st1 @ [snd fb], True) else st1)
            in featuresAt_scan F r f' cs (fst st2) (snd st2))
         else featuresAt_scan F r f' cs todo ambiguous)
      else featuresAt_scan F r f' cs todo ambiguous)"

text \<open>
  The worklist loop of \<^verbatim>\<open>featuresAt\<close>: \<^verbatim>\<open>while (todo.size())\<close>. The finished features
  are \<open>fin\<close> (\<^verbatim>\<open>done\<close> in the source), their choice lists \<open>seen\<close>.
\<close>

partial_function (option) featuresAt_loop ::
  "float_ops \<Rightarrow> 'f feature_ops \<Rightarrow> 'f list \<Rightarrow> 'f list \<Rightarrow> Choice list set \<Rightarrow> Evaluator
     \<Rightarrow> (error + 'f list \<times> Evaluator) option" where
  "featuresAt_loop N F todo fin seen s =
     (case todo of
        [] \<Rightarrow> Some (Inr (fin, s))
      | f # todo1 \<Rightarrow>
          (case push_feature F f s of
             None \<Rightarrow> None
           | Some (Inl e) \<Rightarrow> Some (Inl e)
           | Some (Inr (f', s1)) \<Rightarrow>
               (case derivs_kernel N 1 s1 of
                  None \<Rightarrow> None
                | Some (Inl e) \<Rightarrow> Some (Inl e)
                | Some (Inr s2) \<Rightarrow>
                    (let sc = featuresAt_scan F (result s2) f' (rev (tape_t (cur s2))) todo1 False;
                         f2 = feature_set_deriv F
                                (res_dx (result s2) (tape_i (cur s2)) 0,
                                 res_dy (result s2) (tape_i (cur s2)) 0,
                                 res_dz (result s2) (tape_i (cur s2)) 0) f';
                         fresh = (\<not> snd sc \<and> feature_getChoices F f2 \<notin> seen);
                         fin2 = (if fresh then fin @ [f2] else fin);
                         seen2 = (if fresh then insert (feature_getChoices F f2) seen else seen)
                     in case pop s2 of
                          None \<Rightarrow> None
                        | Some (Inl e) \<Rightarrow> Some (Inl e)
                        | Some (Inr s3) \<Rightarrow> featuresAt_loop N F (fst sc) fin2 seen2 s3))))"

text \<open>\<^verbatim>\<open>featuresAt(p)\<close>: specialize, run the worklist, pop, assert that a feature was found.\<close>

definition featuresAt ::
  "float_ops \<Rightarrow> 'f feature_ops \<Rightarrow> vec3 \<Rightarrow> Evaluator \<Rightarrow> ('f list \<times> Evaluator) res" where
  "featuresAt N F p s =
     res_bind (specialize N p s)
       (\<lambda>s1. res_bind (featuresAt_loop N F [feature_new F] [] {} s1)
          (\<lambda>(fin, s2). res_bind (pop s2)
             (\<lambda>s3. if fin = [] then Some (Inl AssertionFailed) else Some (Inr (fin, s3)))))"

text \<open>\<^verbatim>\<open>isInside(p)\<close>.\<close>

definition isInside ::
  "float_ops \<Rightarrow> 'f feature_ops \<Rightarrow> vec3 \<Rightarrow> Evaluator \<Rightarrow> (bool \<times> Evaluator) res" where
  "isInside N F p s =
     res_bind (derivs_kernel N 1 (set_point p 0 s))
       (\<lambda>s1. case root_derivs s1 0 of (v, dx, dy, dz) \<Rightarrow>
          if flt_lt v (Fin 0) then Some (Inr (True, s1))
          else if flt_gt v (Fin 0) then Some (Inr (False, s1))
          else if \<not> isAmbiguous s1
          then Some (Inr (flt_ne dx (Fin 0) \<or> flt_ne dy (Fin 0) \<or> flt_ne dz (Fin 0), s1))
          else res_bind (featuresAt N F p s1)
                 (\<lambda>(fs, s2).
                    if length fs = 1
                    then Some (Inr (flt_gt (vec_norm F (feature_deriv F (hd fs))) (Fin 0), s2))
                    else
                      (let pos = list_ex (\<lambda>f. feature_isCompatible F f (feature_deriv F f)) fs;
                           neg = list_ex (\<lambda>f. feature_isCompatible F f
                                                 (vec_neg F (feature_deriv F f))) fs
                       in Some (Inr (\<not> (pos \<and> \<not> neg), s2)))))"

section \<open>Well-formed tapes and the vocabulary of the properties\<close>

text \<open>
  What the constructor guarantees of every clause it writes: slot ids are handed out
  downwards from the node count along a topological order, so a clause's id is positive
  and smaller than the slots of its operands; an absent operand is slot 0; \<^verbatim>\<open>MIN\<close> and
  \<^verbatim>\<open>MAX\<close> have both operands.
\<close>

definition wf_clause :: "Clause \<Rightarrow> bool" where
  "wf_clause c =
     (0 < clause_id c \<and>
      (clause_a c = 0 \<or> clause_id c < clause_a c) \<and>
      (clause_b c = 0 \<or> clause_id c < clause_b c) \<and>
      ((clause_op c = OP_MIN \<or> clause_op c = OP_MAX) \<longrightarrow> clause_a c \<noteq> 0 \<and> clause_b c \<noteq> 0))"

text \<open>
  A clause has collapsed to the operand \<open>x\<close>: \<open>x\<close> is live, the clause is remapped to
  \<open>x\<close>, and the clause itself is disabled.
\<close>

definition collapsed :: "Evaluator \<Rightarrow> Clause \<Rightarrow> nat \<Rightarrow> bool" where
  "collapsed s c x = (\<not> disabled s x \<and> remap s (clause_id c) = x \<and> disabled s (clause_id c))"

text \<open>The scratch state of \<^verbatim>\<open>push()\<close> when its loop has run over the clauses \<open>pre\<close>.\<close>

definition push_upto :: "Evaluator \<Rightarrow> Clause list \<Rightarrow> Evaluator" where
  "push_upto s pre = fold push_clause pre (push_init s)"

section \<open>Example evaluators\<close>

text \<open>
  \<open>max(x, y)\<close> as the constructor lays it out: the root clause in slot 1, \<open>y\<close> in slot 2,
  \<open>x\<close> in slot 3, \<open>z\<close> in slot 4; the point loaded is the origin and the intervals are
  those of the box \<open>[5,6] \<times> [1,2] \<times> [0,0]\<close>.
\<close>

definition ex_max_clause :: Clause where
  "ex_max_clause = \<lparr>clause_op = OP_MAX, clause_id = 1, clause_a = 3, clause_b = 2\<rparr>"

definition ex_max_tape :: Tape where
  "ex_max_tape = new_Tape\<lparr>tape_t := [ex_max_clause], tape_i := 1\<rparr>"

definition ex_arena :: Result where
  "ex_arena =
     \<lparr>res_f = (\<lambda>_ _. Fin 0),
      res_dx = (\<lambda>_ _. Fin 0)(3 := (\<lambda>_. Fin 1)),
      res_dy = (\<lambda>_ _. Fin 0)(2 := (\<lambda>_. Fin 1)),
      res_dz = (\<lambda>_ _. Fin 0)(4 := (\<lambda>_. Fin 1)),
      res_i = (\<lambda>_. Interval (Fin 0) (Fin 0))
                (3 := Interval (Fin 5) (Fin 6), 2 := Interval (Fin 1) (Fin 2)),
      res_j = (\<lambda>_. [])\<rparr>"

definition ex_max :: Evaluator where
  "ex_max =
     \<lparr>tapes = [ex_max_tape], tape = 0, result = ex_arena,
      disabled = (\<lambda>_. False), remap = (\<lambda>_. 0), X_id = 3, Y_id = 2, Z_id = 4, vars = []\<rparr>"

text \<open>
  \<open>x * v\<close> as the constructor lays it out: the root clause in slot 1, the variable \<open>v\<close>
  (tree id 7, value 3) in slot 2, \<open>x\<close> in slot 3, \<open>y\<close> and \<open>z\<close> in slots 4 and 5.
\<close>

definition ex_var :: Evaluator where
  "ex_var =
     \<lparr>tapes = [new_Tape\<lparr>tape_t := [\<lparr>clause_op = OP_MUL, clause_id = 1, clause_a = 3, clause_b = 2\<rparr>],
                        tape_i := 1\<rparr>],
      tape = 0,
      result = \<lparr>res_f = (\<lambda>_ _. Fin 0)(2 := (\<lambda>_. Fin 3)),
                res_dx = (\<lambda>_ _. Fin 0)(3 := (\<lambda>_. Fin 1)),
                res_dy = (\<lambda>_ _. Fin 0)(4 := (\<lambda>_. Fin 1)),
                res_dz = (\<lambda>_ _. Fin 0)(5 := (\<lambda>_. Fin 1)),
                res_i = (\<lambda>_. Interval (Fin 0) (Fin 0)),
                res_j = (\<lambda>_. [Fin 0])(2 := [Fin 1])\<rparr>,
      disabled = (\<lambda>_. False), remap = (\<lambda>_. 0), X_id = 3, Y_id = 4, Z_id = 5,
      vars = [(2, 7)]\<rparr>"

text \<open>The same evaluator after \<^verbatim>\<open>setVar(v, NaN)\<close>.\<close>

definition ex_var_nan :: Evaluator where
  "ex_var_nan = setVar 7 NaN ex_var"

subsection \<open>A numeric library and a feature type to run the examples\<close>

text \<open>
  An instance of the numeric library for the examples below: exact real arithmetic on
  finite operands, NaN whenever an operand is not finite or the real function has no
  value. The examples only use it on small integers, where floats are exact too.
\<close>

definition lift1 :: "(real \<Rightarrow> real) \<Rightarrow> flt \<Rightarrow> flt" where
  "lift1 g a = (case a of Fin x \<Rightarrow> Fin (g x) | _ \<Rightarrow> NaN)"

definition lift2 :: "(real \<Rightarrow> real \<Rightarrow> real) \<Rightarrow> flt \<Rightarrow> flt \<Rightarrow> flt" where
  "lift2 g a b = (case a of Fin x \<Rightarrow> (case b of Fin y \<Rightarrow> Fin (g x y) | _ \<Rightarrow> NaN) | _ \<Rightarrow> NaN)"

definition real_fmod :: "real \<Rightarrow> real \<Rightarrow> real" where
  "real_fmod x y =
     (if y = 0 then 0
      else x - y * (if 0 \<le> x / y then of_int \<lfloor>x / y\<rfloor> else of_int \<lceil>x / y\<rceil>))"

definition real_atan2 :: "real \<Rightarrow> real \<Rightarrow> real" where
  "real_atan2 y x =
     (if 0 < x then arctan (y / x)
      else if x < 0 then (if 0 \<le> y then arctan (y / x) + pi else arctan (y / x) - pi)
      else if 0 < y then pi / 2 else if y < 0 then - pi / 2 else 0)"

definition ideal_ops :: float_ops where
  "ideal_ops =
     \<lparr>fadd = lift2 (+), fsub = lift2 (-), fmul = lift2 (*),
      fdiv = (\<lambda>a b. if b = Fin 0 then NaN else lift2 (/) a b),
      fmin = lift2 min, fmax = lift2 max, fatan2 = lift2 real_atan2, fpow = lift2 (powr),
      ffmod = (\<lambda>a b. if b = Fin 0 then NaN else lift2 real_fmod a b),
      fsqrt = (\<lambda>a. if flt_lt a (Fin 0) then NaN else lift1 sqrt a),
      fneg = lift1 uminus, fsin = lift1 sin, fcos = lift1 cos, ftan = lift1 tan,
      fasin = lift1 arcsin, facos = lift1 arccos, fatan = lift1 arctan, fexp = lift1 exp\<rparr>"

text \<open>
  An instance of the feature operations for the examples: a feature is its list of
  choices and its gradient; it records no epsilons and accepts every direction that is
  not the zero vector. Vectors are subtracted and negated with \<open>ideal_ops\<close>.
\<close>

definition plain_features :: "(Choice list \<times> vec3) feature_ops" where
  "plain_features =
     \<lparr>feature_new = ([], (Fin 0, Fin 0, Fin 0)),
      feature_getChoices = fst,
      feature_hasEpsilon = (\<lambda>f i. False),
      feature_getEpsilon = (\<lambda>f i. (Fin 0, Fin 0, Fin 0)),
      feature_push_raw = (\<lambda>ch v f. (fst f @ [ch], snd f)),
      feature_push_choice_raw = (\<lambda>ch f. (fst f @ [ch], snd f)),
      feature_push = (\<lambda>v ch f. (v \<noteq> (Fin 0, Fin 0, Fin 0), (ch # fst f, snd f))),
      feature_push_choice = (\<lambda>ch f. (ch # fst f, snd f)),
      feature_isCompatible = (\<lambda>f v. v \<noteq> (Fin 0, Fin 0, Fin 0)),
      feature_deriv = snd,
      feature_set_deriv = (\<lambda>v f. (fst f, v)),
      vec_sub = (\<lambda>(ax, ay, az) (bx, by, bz).
                   (fsub ideal_ops ax bx, fsub ideal_ops ay by, fsub ideal_ops az bz)),
      vec_neg = (\<lambda>(ax, ay, az). (fneg ideal_ops ax, fneg ideal_ops ay, fneg ideal_ops az)),
      vec_norm = (\<lambda>(ax, ay, az).
                    fsqrt ideal_ops
                      (fadd ideal_ops (fadd ideal_ops (fmul ideal_ops ax ax) (fmul ideal_ops ay ay))
                         (fmul ideal_ops az az)))\<rparr>"

text \<open>
  \<open>f = x\<close>: no clause; \<open>x\<close> is the root in slot 1, \<open>y\<close> and \<open>z\<close> get slots 2 and 3.
\<close>

definition ex_x :: Evaluator where
  "ex_x =
     \<lparr>tapes = [new_Tape\<lparr>tape_i := 1\<rparr>], tape = 0,
      result = \<lparr>res_f = (\<lambda>_ _. Fin 0),
                res_dx = (\<lambda>_ _. Fin 0)(1 := (\<lambda>_. Fin 1)),
                res_dy = (\<lambda>_ _. Fin 0)(2 := (\<lambda>_. Fin 1)),
                res_dz = (\<lambda>_ _. Fin 0)(3 := (\<lambda>_. Fin 1)),
                res_i = (\<lambda>_. Interval (Fin 0) (Fin 0)),
                res_j = (\<lambda>_. [])\<rparr>,
      disabled = (\<lambda>_. False), remap = (\<lambda>_. 0), X_id = 1, Y_id = 2, Z_id = 3, vars = []\<rparr>"

text \<open>
  The stack of \<open>f = x\<close> after interval pushes over the boxes \<open>[0,10]\<^sup>3\<close> and \<open>[0,5]\<^sup>3\<close>,
  with the cursor on the second.
\<close>

definition ex_stack :: Evaluator where
  "ex_stack =
     ex_x\<lparr>tapes := [new_Tape\<lparr>tape_i := 1\<rparr>,
                     new_Tape\<lparr>tape_i := 1, tape_type := INTERVAL,
                              tape_X := Interval (Fin 0) (Fin 10),
                              tape_Y := Interval (Fin 0) (Fin 10),
                              tape_Z := Interval (Fin 0) (Fin 10)\<rparr>,
                     new_Tape\<lparr>tape_i := 1, tape_type := INTERVAL,
                              tape_X := Interval (Fin 0) (Fin 5),
                              tape_Y := Interval (Fin 0) (Fin 5),
                              tape_Z := Interval (Fin 0) (Fin 5)\<rparr>],
          tape := 2\<rparr>"

text \<open>
  C5 in the spec's words: the shallowest interval tape of the stack whose box holds the
  point, that is the one closest to the base among the tapes up to the cursor, and the
  base tape when there is none.
\<close>

definition shallowest_interval :: "vec3 \<Rightarrow> Evaluator \<Rightarrow> nat" where
  "shallowest_interval p s =
     (case filter (\<lambda>k. tape_type (tapes s ! k) = INTERVAL \<and> box_contains (tapes s ! k) p)
             [1..<Suc (tape s)]
      of [] \<Rightarrow> 0 | k # _ \<Rightarrow> k)"

text \<open>
  \<open>mod(x, y)\<close>: the root clause in slot 1, \<open>y\<close> in slot 2, \<open>x\<close> in slot 3, \<open>z\<close> in slot 4.
\<close>

definition ex_mod :: Evaluator where
  "ex_mod =
     \<lparr>tapes = [new_Tape\<lparr>tape_t := [\<lparr>clause_op = OP_MOD, clause_id = 1, clause_a = 3, clause_b = 2\<rparr>],
                        tape_i := 1\<rparr>],
      tape = 0,
      result = \<lparr>res_f = (\<lambda>_ _. Fin 0),
                res_dx = (\<lambda>_ _. Fin 0)(3 := (\<lambda>_. Fin 1)),
                res_dy = (\<lambda>_ _. Fin 0)(2 := (\<lambda>_. Fin 1)),
                res_dz = (\<lambda>_ _. Fin 0)(4 := (\<lambda>_. Fin 1)),
                res_i = (\<lambda>_. Interval (Fin 0) (Fin 0)),
                res_j = (\<lambda>_. [])\<rparr>,
      disabled = (\<lambda>_. False), remap = (\<lambda>_. 0), X_id = 3, Y_id = 2, Z_id = 4, vars = []\<rparr>"

text \<open>
  C2 in the spec's words. \<open>y\<close> is the remap fixed point of \<open>x\<close>: the first slot with a zero
  entry on the chain \<open>x\<close>, \<open>remap[x]\<close>, \<open>remap[remap[x]]\<close>, ... A clause is rewritten when it
  keeps its opcode and id and its operands are replaced by their fixed points. A tape is
  reduced from its parent when its clauses are the rewritten clauses of a subsequence of
  the parent's, its root is the fixed point of the parent's root, and it is no longer.
\<close>

definition remap_fixed_point :: "(nat \<Rightarrow> nat) \<Rightarrow> nat \<Rightarrow> nat \<Rightarrow> bool" where
  "remap_fixed_point rm x y =
     (rm y = 0 \<and> (\<exists>n. (rm ^^ n) x = y \<and> (\<forall>k<n. rm ((rm ^^ k) x) \<noteq> 0)))"

definition rewritten :: "(nat \<Rightarrow> nat) \<Rightarrow> Clause \<Rightarrow> Clause \<Rightarrow> bool" where
  "rewritten rm c c' =
     (clause_op c' = clause_op c \<and> clause_id c' = clause_id c \<and>
      remap_fixed_point rm (clause_a c) (clause_a c') \<and>
      remap_fixed_point rm (clause_b c) (clause_b c'))"

definition reduced_tape :: "(nat \<Rightarrow> nat) \<Rightarrow> Tape \<Rightarrow> Tape \<Rightarrow> bool" where
  "reduced_tape rm parent new =
     ((\<exists>kept. subseq kept (tape_t parent) \<and> list_all2 (rewritten rm) kept (tape_t new)) \<and>
      remap_fixed_point rm (tape_i parent) (tape_i new) \<and>
      length (tape_t new) \<le> length (tape_t parent))"

text \<open>
  Every nonzero entry of a remap table written by a push comes from a clause of the tape:
  it sits at the clause's id and is one of its operands. \<open>frame\<close> says that two states
  differ in nothing but the scratch arrays.
\<close>

definition remap_from :: "Clause list \<Rightarrow> (nat \<Rightarrow> nat) \<Rightarrow> bool" where
  "remap_from cs rm =
     (\<forall>r. rm r \<noteq> 0 \<longrightarrow> (\<exists>c\<in>set cs. clause_id c = r \<and> (rm r = clause_a c \<or> rm r = clause_b c)))"

definition frame :: "Evaluator \<Rightarrow> Evaluator \<Rightarrow> bool" where
  "frame s s' = (s'\<lparr>disabled := disabled s, remap := remap s\<rparr> = s)"

text \<open>\<open>max(x, y)\<close> after \<^verbatim>\<open>push()\<close> over that box: the clause is gone and the root is \<open>x\<close>.\<close>

definition ex_max_pushed :: Evaluator where
  "ex_max_pushed =
     ex_max\<lparr>tapes := [ex_max_tape,
                      new_Tape\<lparr>tape_i := 3, tape_type := INTERVAL,
                               tape_X := Interval (Fin 5) (Fin 6),
                               tape_Y := Interval (Fin 1) (Fin 2),
                               tape_Z := Interval (Fin 0) (Fin 0)\<rparr>],
            tape := 1,
            disabled := (\<lambda>k. k \<noteq> 3),
            remap := (\<lambda>_. 0)(1 := 3)\<rparr>"







text \<open>
  A tape is in evaluation order when it is as the constructor writes it: every clause is
  well formed and the ids increase along the tape, so that the sweeps, which run from the
  back, reach a clause after the clauses of its operands. \<open>agree_off I n\<close> says that two
  arenas of value rows hold the same everywhere but in the first \<open>n\<close> columns of the rows
  of \<open>I\<close>.
\<close>

definition ordered_tape :: "Clause list \<Rightarrow> bool" where
  "ordered_tape cs = (list_all wf_clause cs \<and> sorted_wrt (<) (map clause_id cs))"





section \<open>Properties\<close>

subsection \<open>Float comparisons\<close>

lemma flt_lt_trans: "flt_lt x y \<Longrightarrow> flt_lt y z \<Longrightarrow> flt_lt x z"
  by (cases x; cases y; cases z) simp_all

lemma flt_lt_irrefl: "\<not> flt_lt x x"
  by (cases x) simp_all

lemma flt_le_lt_trans: "flt_le x y \<Longrightarrow> flt_lt y z \<Longrightarrow> flt_lt x z"
  by (auto simp: flt_le_def flt_eq_def intro: flt_lt_trans)

lemma flt_lt_NaN: "flt_lt x y \<Longrightarrow> x \<noteq> NaN \<and> y \<noteq> NaN"
  by (cases x; cases y) simp_all

lemma separated_once:
  assumes "interval_ok ia" "interval_ok ib" "flt_gt (lower ia) (upper ib)"
  shows "\<not> flt_gt (lower ib) (upper ia)"
proof
  assume h: "flt_gt (lower ib) (upper ia)"
  from assms(3) have n1: "lower ia \<noteq> NaN" "upper ib \<noteq> NaN"
    using flt_lt_NaN by (auto simp: flt_gt_def)
  from h have n2: "lower ib \<noteq> NaN" "upper ia \<noteq> NaN"
    using flt_lt_NaN by (auto simp: flt_gt_def)
  have a: "flt_le (lower ia) (upper ia)" using assms(1) n1 by (simp add: interval_ok_def)
  have b: "flt_le (lower ib) (upper ib)" using assms(2) n2 by (simp add: interval_ok_def)
  have "flt_lt (lower ib) (lower ia)"
    using b assms(3) by (auto simp: flt_gt_def intro: flt_le_lt_trans)
  moreover have "flt_lt (lower ia) (lower ib)"
    using a h by (auto simp: flt_gt_def intro: flt_le_lt_trans)
  ultimately show False using flt_lt_trans flt_lt_irrefl by blast
qed

subsection \<open>The marking loop of push()\<close>

lemma push_clause_remap_other: "k \<noteq> clause_id c \<Longrightarrow> remap (push_clause c s) k = remap s k"
  by (simp add: push_clause_def push_minmax_def push_keep_def collapse_to_def Let_def)

lemma push_clause_result: "result (push_clause c s) = result s"
  by (simp add: push_clause_def push_minmax_def push_keep_def collapse_to_def Let_def)

lemma fold_push_clause_remap_other:
  "k \<notin> clause_id ` set cs \<Longrightarrow> remap (fold push_clause cs s) k = remap s k"
  by (induction cs arbitrary: s) (simp_all add: push_clause_remap_other)

lemma fold_push_clause_result: "result (fold push_clause cs s) = result s"
  by (induction cs arbitrary: s) (simp_all add: push_clause_result)

lemma push_init_remap: "remap (push_init s) k = 0"
  by (simp add: push_init_def Let_def)

lemma push_init_result: "result (push_init s) = result s"
  by (simp add: push_init_def Let_def)

lemma push_upto_remap_fresh:
  "clause_id c \<notin> clause_id ` set pre \<Longrightarrow> remap (push_upto s pre) (clause_id c) = 0"
  by (simp add: push_upto_def fold_push_clause_remap_other push_init_remap)

lemma push_keep_remap: "remap (push_keep c s) = remap s"
  by (simp add: push_keep_def)

lemma push_keep_live:
  "remap s (clause_id c) = 0 \<Longrightarrow>
     \<not> disabled (push_keep c s) (clause_a c) \<and> \<not> disabled (push_keep c s) (clause_b c)"
  by (simp add: push_keep_def)

text \<open>
  C1. In \<^verbatim>\<open>push()\<close>, let the loop reach a clause \<open>c\<close> of the current tape that is
  still live. If \<open>c\<close> is a \<^verbatim>\<open>MAX\<close> and the interval of \<open>a\<close> lies strictly above that of
  \<open>b\<close>, the clause collapses to \<open>a\<close> (\<open>a\<close> is live, \<open>remap[id] = a\<close>, the clause is
  disabled); if the interval of \<open>b\<close> lies strictly above that of \<open>a\<close>, it collapses to
  \<open>b\<close>; for \<^verbatim>\<open>MIN\<close> the branches are swapped. Whenever the clause has collapsed to
  neither operand, both operands are live after the step; and that is so in every other
  case: when the clause is no \<^verbatim>\<open>MIN\<close> or \<^verbatim>\<open>MAX\<close>, or neither interval lies strictly
  above the other, nothing is remapped, the clause stays live and both operands become
  live. The state after the step is one the loop of \<^verbatim>\<open>push()\<close> passes through, and the
  entry \<open>remap[id]\<close> it leaves is still there when the loop ends. The tape is one the
  constructor can build (distinct ids, well-formed clause) and the stored intervals are
  boost intervals.
\<close>

theorem push_collapse:
  assumes tp: "tape_t (cur s) = pre @ c # post"
    and ids: "distinct (map clause_id (tape_t (cur s)))"
    and wf: "wf_clause c"
    and ia: "interval_ok (res_i (result s) (clause_a c))"
    and ib: "interval_ok (res_i (result s) (clause_b c))"
    and live: "\<not> disabled (push_upto s pre) (clause_id c)"
  shows "(clause_op c = OP_MAX \<and>
            flt_gt (lower (res_i (result s) (clause_a c))) (upper (res_i (result s) (clause_b c)))
          \<longrightarrow> collapsed (push_clause c (push_upto s pre)) c (clause_a c)) \<and>
         (clause_op c = OP_MAX \<and>
            flt_gt (lower (res_i (result s) (clause_b c))) (upper (res_i (result s) (clause_a c)))
          \<longrightarrow> collapsed (push_clause c (push_upto s pre)) c (clause_b c)) \<and>
         (clause_op c = OP_MIN \<and>
            flt_gt (lower (res_i (result s) (clause_a c))) (upper (res_i (result s) (clause_b c)))
          \<longrightarrow> collapsed (push_clause c (push_upto s pre)) c (clause_b c)) \<and>
         (clause_op c = OP_MIN \<and>
            flt_gt (lower (res_i (result s) (clause_b c))) (upper (res_i (result s) (clause_a c)))
          \<longrightarrow> collapsed (push_clause c (push_upto s pre)) c (clause_a c)) \<and>
         (\<not> collapsed (push_clause c (push_upto s pre)) c (clause_a c) \<and>
          \<not> collapsed (push_clause c (push_upto s pre)) c (clause_b c)
          \<longrightarrow> \<not> disabled (push_clause c (push_upto s pre)) (clause_a c) \<and>
              \<not> disabled (push_clause c (push_upto s pre)) (clause_b c)) \<and>
         (\<not> ((clause_op c = OP_MAX \<or> clause_op c = OP_MIN) \<and>
              (flt_gt (lower (res_i (result s) (clause_a c))) (upper (res_i (result s) (clause_b c))) \<or>
               flt_gt (lower (res_i (result s) (clause_b c))) (upper (res_i (result s) (clause_a c)))))
          \<longrightarrow> \<not> collapsed (push_clause c (push_upto s pre)) c (clause_a c) \<and>
              \<not> collapsed (push_clause c (push_upto s pre)) c (clause_b c) \<and>
              remap (push_clause c (push_upto s pre)) (clause_id c) = 0 \<and>
              \<not> disabled (push_clause c (push_upto s pre)) (clause_id c)) \<and>
         push_marks s = fold push_clause post (push_clause c (push_upto s pre)) \<and>
         remap (push_marks s) (clause_id c)
           = remap (push_clause c (push_upto s pre)) (clause_id c)"
proof -
  let ?s = "push_upto s pre"
  let ?gab = "flt_gt (lower (res_i (result s) (clause_a c))) (upper (res_i (result s) (clause_b c)))"
  let ?gba = "flt_gt (lower (res_i (result s) (clause_b c))) (upper (res_i (result s) (clause_a c)))"
  have r: "result ?s = result s"
    by (simp add: push_upto_def fold_push_clause_result push_init_result)
  have "clause_id c \<notin> clause_id ` set pre"
    using ids tp by auto
  then have z: "remap ?s (clause_id c) = 0"
    by (rule push_upto_remap_fresh)
  have ex2: "?gba \<Longrightarrow> \<not> ?gab"
    using separated_once [OF ib ia] .
  have ops: "clause_op c = OP_MAX \<or> clause_op c = OP_MIN \<Longrightarrow>
      clause_a c \<noteq> 0 \<and> clause_b c \<noteq> 0 \<and> clause_a c \<noteq> clause_id c \<and> clause_b c \<noteq> clause_id c"
    using wf by (auto simp: wf_clause_def)
  have nid: "clause_a c \<noteq> clause_id c" "clause_b c \<noteq> clause_id c"
    using wf by (auto simp: wf_clause_def)
  have c1: "clause_op c = OP_MAX \<Longrightarrow> ?gab \<Longrightarrow> collapsed (push_clause c ?s) c (clause_a c)"
    using live z ops
    by (simp add: push_clause_def push_minmax_def push_keep_def collapse_to_def collapsed_def Let_def r)
  have c2: "clause_op c = OP_MAX \<Longrightarrow> ?gba \<Longrightarrow> collapsed (push_clause c ?s) c (clause_b c)"
    using live z ops ex2
    by (simp add: push_clause_def push_minmax_def push_keep_def collapse_to_def collapsed_def Let_def r)
  have c3: "clause_op c = OP_MIN \<Longrightarrow> ?gab \<Longrightarrow> collapsed (push_clause c ?s) c (clause_b c)"
    using live z ops
    by (simp add: push_clause_def push_minmax_def push_keep_def collapse_to_def collapsed_def Let_def r)
  have c4: "clause_op c = OP_MIN \<Longrightarrow> ?gba \<Longrightarrow> collapsed (push_clause c ?s) c (clause_a c)"
    using live z ops ex2
    by (simp add: push_clause_def push_minmax_def push_keep_def collapse_to_def collapsed_def Let_def r)
  have s1: "push_clause c ?s = push_keep c (push_minmax c ?s)"
    using live by (simp add: push_clause_def)
  have keep: "\<not> ((clause_op c = OP_MAX \<or> clause_op c = OP_MIN) \<and> (?gab \<or> ?gba)) \<Longrightarrow>
      push_minmax c ?s = ?s"
    by (auto simp: push_minmax_def Let_def r)
  have k1: "\<not> ((clause_op c = OP_MAX \<or> clause_op c = OP_MIN) \<and> (?gab \<or> ?gba)) \<Longrightarrow>
      remap (push_clause c ?s) (clause_id c) = 0"
    unfolding s1 by (simp add: keep push_keep_remap z)
  have k2: "\<not> ((clause_op c = OP_MAX \<or> clause_op c = OP_MIN) \<and> (?gab \<or> ?gba)) \<Longrightarrow>
      \<not> disabled (push_clause c ?s) (clause_id c)"
    unfolding s1 using live nid z by (simp add: keep push_keep_def)
  have k3: "\<not> ((clause_op c = OP_MAX \<or> clause_op c = OP_MIN) \<and> (?gab \<or> ?gba)) \<Longrightarrow>
      \<not> disabled (push_clause c ?s) (clause_a c) \<and> \<not> disabled (push_clause c ?s) (clause_b c)"
    unfolding s1 using push_keep_live [of ?s c] z by (simp add: keep)
  have c6: "\<not> ((clause_op c = OP_MAX \<or> clause_op c = OP_MIN) \<and> (?gab \<or> ?gba)) \<Longrightarrow>
      \<not> collapsed (push_clause c ?s) c (clause_a c) \<and>
      \<not> collapsed (push_clause c ?s) c (clause_b c) \<and>
      remap (push_clause c ?s) (clause_id c) = 0 \<and>
      \<not> disabled (push_clause c ?s) (clause_id c)"
    using k1 k2 by (simp add: collapsed_def)
  have c5: "\<not> collapsed (push_clause c ?s) c (clause_a c) \<Longrightarrow>
      \<not> collapsed (push_clause c ?s) c (clause_b c) \<Longrightarrow>
      \<not> disabled (push_clause c ?s) (clause_a c) \<and> \<not> disabled (push_clause c ?s) (clause_b c)"
    using c1 c2 c3 c4 k3 by blast
  have c7: "push_marks s = fold push_clause post (push_clause c ?s)"
    by (simp add: push_marks_def push_upto_def tp)
  have "clause_id c \<notin> clause_id ` set post"
    using ids tp by auto
  then have c8: "remap (push_marks s) (clause_id c) = remap (push_clause c ?s) (clause_id c)"
    unfolding c7 by (rule fold_push_clause_remap_other)
  from c1 c2 c3 c4 c5 c6 have "(clause_op c = OP_MAX \<and> ?gab
          \<longrightarrow> collapsed (push_clause c ?s) c (clause_a c)) \<and>
         (clause_op c = OP_MAX \<and> ?gba
          \<longrightarrow> collapsed (push_clause c ?s) c (clause_b c)) \<and>
         (clause_op c = OP_MIN \<and> ?gab
          \<longrightarrow> collapsed (push_clause c ?s) c (clause_b c)) \<and>
         (clause_op c = OP_MIN \<and> ?gba
          \<longrightarrow> collapsed (push_clause c ?s) c (clause_a c)) \<and>
         (\<not> collapsed (push_clause c ?s) c (clause_a c) \<and>
          \<not> collapsed (push_clause c ?s) c (clause_b c)
          \<longrightarrow> \<not> disabled (push_clause c ?s) (clause_a c) \<and>
              \<not> disabled (push_clause c ?s) (clause_b c)) \<and>
         (\<not> ((clause_op c = OP_MAX \<or> clause_op c = OP_MIN) \<and> (?gab \<or> ?gba))
          \<longrightarrow> \<not> collapsed (push_clause c ?s) c (clause_a c) \<and>
              \<not> collapsed (push_clause c ?s) c (clause_b c) \<and>
              remap (push_clause c ?s) (clause_id c) = 0 \<and>
              \<not> disabled (push_clause c ?s) (clause_id c))"
    by blast
  with c7 c8 show ?thesis by (intro conjI) blast+
qed

text \<open>
  The theorem at \<open>max(x, y)\<close> over a box where \<open>x\<close> is decisively above \<open>y\<close>, and at the
  product \<open>x * v\<close>, whose clause keeps both operands.
\<close>

theorem push_collapse_witness:
  "tape_t (cur ex_max) = [] @ ex_max_clause # [] \<and>
   distinct (map clause_id (tape_t (cur ex_max))) \<and>
   wf_clause ex_max_clause \<and>
   interval_ok (res_i (result ex_max) (clause_a ex_max_clause)) \<and>
   interval_ok (res_i (result ex_max) (clause_b ex_max_clause)) \<and>
   \<not> disabled (push_upto ex_max []) (clause_id ex_max_clause) \<and>
   clause_op ex_max_clause = OP_MAX \<and>
   flt_gt (lower (res_i (result ex_max) (clause_a ex_max_clause)))
     (upper (res_i (result ex_max) (clause_b ex_max_clause))) \<and>
   collapsed (push_clause ex_max_clause (push_upto ex_max [])) ex_max_clause 3 \<and>
   tape_t (cur ex_var) = [] @ \<lparr>clause_op = OP_MUL, clause_id = 1, clause_a = 3, clause_b = 2\<rparr> # [] \<and>
   \<not> disabled (push_upto ex_var []) 1 \<and>
   \<not> disabled (push_clause \<lparr>clause_op = OP_MUL, clause_id = 1, clause_a = 3, clause_b = 2\<rparr>
                  (push_upto ex_var [])) 3 \<and>
   \<not> disabled (push_clause \<lparr>clause_op = OP_MUL, clause_id = 1, clause_a = 3, clause_b = 2\<rparr>
                  (push_upto ex_var [])) 2"
proof -
  have h1: "tape_t (cur ex_max) = [] @ ex_max_clause # []"
    by (simp add: cur_def ex_max_def ex_max_tape_def)
  have h2: "distinct (map clause_id (tape_t (cur ex_max)))"
    by (simp add: cur_def ex_max_def ex_max_tape_def)
  have h3: "wf_clause ex_max_clause"
    by (simp add: wf_clause_def ex_max_clause_def)
  have h4: "interval_ok (res_i (result ex_max) (clause_a ex_max_clause))"
    by (simp add: interval_ok_def flt_le_def ex_max_def ex_arena_def ex_max_clause_def)
  have h5: "interval_ok (res_i (result ex_max) (clause_b ex_max_clause))"
    by (simp add: interval_ok_def flt_le_def ex_max_def ex_arena_def ex_max_clause_def)
  have h6: "\<not> disabled (push_upto ex_max []) (clause_id ex_max_clause)"
    by (simp add: push_upto_def push_init_def cur_def ex_max_def ex_max_tape_def
        ex_max_clause_def Let_def)
  have h7: "clause_op ex_max_clause = OP_MAX"
    by (simp add: ex_max_clause_def)
  have h8: "flt_gt (lower (res_i (result ex_max) (clause_a ex_max_clause)))
     (upper (res_i (result ex_max) (clause_b ex_max_clause)))"
    by (simp add: flt_gt_def ex_max_def ex_arena_def ex_max_clause_def)
  have a3: "clause_a ex_max_clause = 3"
    by (simp add: ex_max_clause_def)
  from push_collapse [OF h1 h2 h3 h4 h5 h6] h7 h8
  have "collapsed (push_clause ex_max_clause (push_upto ex_max [])) ex_max_clause
          (clause_a ex_max_clause)"
    by blast
  then have first: "collapsed (push_clause ex_max_clause (push_upto ex_max [])) ex_max_clause 3"
    unfolding a3 .
  let ?c = "\<lparr>clause_op = OP_MUL, clause_id = 1, clause_a = 3, clause_b = 2\<rparr>"
  have g1: "tape_t (cur ex_var) = [] @ ?c # []"
    by (simp add: cur_def ex_var_def new_Tape_def)
  have g2: "distinct (map clause_id (tape_t (cur ex_var)))"
    by (simp add: cur_def ex_var_def new_Tape_def)
  have g3: "wf_clause ?c"
    by (simp add: wf_clause_def)
  have g4: "interval_ok (res_i (result ex_var) (clause_a ?c))"
    by (simp add: interval_ok_def flt_le_def flt_eq_def ex_var_def)
  have g5: "interval_ok (res_i (result ex_var) (clause_b ?c))"
    by (simp add: interval_ok_def flt_le_def flt_eq_def ex_var_def)
  have g6: "\<not> disabled (push_upto ex_var []) (clause_id ?c)"
    by (simp add: push_upto_def push_init_def cur_def ex_var_def new_Tape_def Let_def)
  have g7: "\<not> ((clause_op ?c = OP_MAX \<or> clause_op ?c = OP_MIN) \<and>
      (flt_gt (lower (res_i (result ex_var) (clause_a ?c))) (upper (res_i (result ex_var) (clause_b ?c))) \<or>
       flt_gt (lower (res_i (result ex_var) (clause_b ?c))) (upper (res_i (result ex_var) (clause_a ?c)))))"
    by simp
  from push_collapse [OF g1 g2 g3 g4 g5 g6] g7
  have "\<not> disabled (push_clause ?c (push_upto ex_var [])) (clause_a ?c) \<and>
        \<not> disabled (push_clause ?c (push_upto ex_var [])) (clause_b ?c)"
    by blast
  then have second: "\<not> disabled (push_clause ?c (push_upto ex_var [])) 3 \<and>
        \<not> disabled (push_clause ?c (push_upto ex_var [])) 2"
    by simp
  from g6 have g6': "\<not> disabled (push_upto ex_var []) 1" by simp
  from h1 h2 h3 h4 h5 h6 h7 h8 first g1 g6' second show ?thesis
    by (intro conjI) blast+
qed

subsection \<open>Variables: setVar and updateVars\<close>

text \<open>
  C9. For an id that is not a registered variable, \<^verbatim>\<open>setVar(id, v)\<close> returns and leaves
  the evaluator, and so every row of the arena, as it was.
\<close>

theorem setVar_unregistered:
  "var \<notin> snd ` set (vars s) \<Longrightarrow> setVar var v s = s"
proof -
  assume h: "var \<notin> snd ` set (vars s)"
  have "find (\<lambda>e. snd e = var) (vars s) = None"
    using h by (force simp: find_None_iff)
  then show ?thesis by (simp add: setVar_def)
qed

text \<open>The theorem at \<open>x * v\<close>, for the id 8 that is not its variable.\<close>

theorem setVar_unregistered_witness:
  "8 \<notin> snd ` set (vars ex_var) \<and> setVar 8 (Fin 5) ex_var = ex_var"
proof -
  have h: "8 \<notin> snd ` set (vars ex_var)" by (simp add: ex_var_def)
  from setVar_unregistered [OF h] h show ?thesis by simp
qed

lemma setVar_vars: "vars (setVar var v s) = vars s"
  by (simp add: setVar_def split: option.splits)

lemma find_registered:
  assumes "(slot, var) \<in> set vs" "distinct (map snd vs)"
  shows "find (\<lambda>e. snd e = var) vs = Some (slot, var)"
  using assms
proof (induction vs)
  case Nil
  then show ?case by simp
next
  case (Cons e vs)
  show ?case
  proof (cases "snd e = var")
    case True
    with Cons.prems have "e = (slot, var)"
      by (cases e) force
    with True show ?thesis by simp
  next
    case False
    with Cons show ?thesis by auto
  qed
qed

lemma setVar_registered:
  assumes "(slot, var) \<in> set (vars s)" "distinct (map snd (vars s))"
  shows "setVar var v s = s\<lparr>result := setValue v slot (result s)\<rparr>"
  using find_registered [OF assms] by (simp add: setVar_def)

lemma setVar_current_col0:
  assumes "(slot, var) \<in> set (vars s)" "distinct (map snd (vars s))"
  shows "res_f (result (setVar var (res_f (result s) slot 0) s)) k 0 = res_f (result s) k 0"
  by (simp add: setVar_registered [OF assms] setValue_def)

lemma updateVars_loop_same:
  assumes "list_all (\<lambda>e. m (snd e) = Some (res_f (result s) (fst e) 0)) es"
    and "list_all (\<lambda>e. res_f (result s) (fst e) 0 \<noteq> NaN) es"
  shows "updateVars_loop m es changed s = Some (Inr (changed, s))"
  using assms
  by (induction es arbitrary: changed) (auto simp: flt_ne_def flt_eq_def)

text \<open>
  C8, amended. Let \<open>v\<close> be a registered variable, \<open>x\<close> its stored value (column 0 of
  its row), and let \<open>m\<close> map every registered variable to its stored value. If no stored
  value is NaN, then after \<^verbatim>\<open>setVar(v, x)\<close> the call \<^verbatim>\<open>updateVars(m)\<close> returns false,
  changes nothing, and every variable's stored value is what it was before \<^verbatim>\<open>setVar\<close>.
\<close>

theorem updateVars_after_setVar:
  assumes reg: "(slot, var) \<in> set (vars s)"
    and bimap: "distinct (map snd (vars s))"
    and cur_m: "list_all (\<lambda>e. m (snd e) = Some (res_f (result s) (fst e) 0)) (vars s)"
    and no_nan: "list_all (\<lambda>e. res_f (result s) (fst e) 0 \<noteq> NaN) (vars s)"
  shows "updateVars m (setVar var (res_f (result s) slot 0) s)
           = Some (Inr (False, setVar var (res_f (result s) slot 0) s)) \<and>
         list_all (\<lambda>e. res_f (result (setVar var (res_f (result s) slot 0) s)) (fst e) 0
                         = res_f (result s) (fst e) 0) (vars s)"
proof -
  let ?s = "setVar var (res_f (result s) slot 0) s"
  have c0: "\<And>k. res_f (result ?s) k 0 = res_f (result s) k 0"
    using setVar_current_col0 [OF reg bimap] .
  have v: "vars ?s = vars s" by (rule setVar_vars)
  have 1: "list_all (\<lambda>e. m (snd e) = Some (res_f (result ?s) (fst e) 0)) (vars s)"
    using cur_m by (simp add: c0)
  have 2: "list_all (\<lambda>e. res_f (result ?s) (fst e) 0 \<noteq> NaN) (vars s)"
    using no_nan by (simp add: c0)
  have "updateVars m ?s = Some (Inr (False, ?s))"
    unfolding updateVars_def v by (rule updateVars_loop_same [OF 1 2])
  moreover have "list_all (\<lambda>e. res_f (result ?s) (fst e) 0 = res_f (result s) (fst e) 0) (vars s)"
    by (simp add: c0 list_all_iff)
  ultimately show ?thesis by simp
qed

text \<open>The theorem at \<open>x * v\<close> with \<open>v = 3\<close>.\<close>

theorem updateVars_after_setVar_witness:
  "(2, 7) \<in> set (vars ex_var) \<and> distinct (map snd (vars ex_var)) \<and>
   list_all (\<lambda>e. (Map.empty(7 \<mapsto> Fin 3)) (snd e) = Some (res_f (result ex_var) (fst e) 0)) (vars ex_var) \<and>
   list_all (\<lambda>e. res_f (result ex_var) (fst e) 0 \<noteq> NaN) (vars ex_var) \<and>
   updateVars (Map.empty(7 \<mapsto> Fin 3)) (setVar 7 (res_f (result ex_var) 2 0) ex_var)
     = Some (Inr (False, setVar 7 (res_f (result ex_var) 2 0) ex_var))"
proof -
  have h1: "(2, 7) \<in> set (vars ex_var)" by (simp add: ex_var_def)
  have h2: "distinct (map snd (vars ex_var))" by (simp add: ex_var_def)
  have h3: "list_all (\<lambda>e. (Map.empty(7 \<mapsto> Fin 3)) (snd e) = Some (res_f (result ex_var) (fst e) 0)) (vars ex_var)"
    by (simp add: ex_var_def)
  have h4: "list_all (\<lambda>e. res_f (result ex_var) (fst e) 0 \<noteq> NaN) (vars ex_var)"
    by (simp add: ex_var_def)
  from updateVars_after_setVar [OF h1 h2 h3 h4] h1 h2 h3 h4 show ?thesis by blast
qed

text \<open>
  C8 as stated fails where a stored value is NaN: \<^verbatim>\<open>val != result->f(v.first, 0)\<close> is true
  for two NaNs, so \<^verbatim>\<open>updateVars\<close> reports a change although the map holds the stored value.
\<close>

theorem updateVars_nan_counterexample:
  "vars ex_var_nan = [(2, 7)] \<and> res_f (result ex_var_nan) 2 0 = NaN \<and>
   updateVars (Map.empty(7 \<mapsto> NaN)) (setVar 7 NaN ex_var_nan)
     = Some (Inr (True, setVar 7 NaN ex_var_nan))"
  by (simp add: ex_var_nan_def ex_var_def setVar_def setValue_def updateVars_def flt_ne_def flt_eq_def)

subsection \<open>Outcomes\<close>

lemma res_bind_simps:
  "res_bind None k = None"
  "res_bind (Some (Inl e)) k = Some (Inl e)"
  "res_bind (Some (Inr x)) k = k x"
  by (simp_all add: res_bind_def)

lemma res_bind_Inr:
  "res_bind m k = Some (Inr y) \<Longrightarrow> \<exists>x. m = Some (Inr x) \<and> k x = Some (Inr y)"
  by (auto simp: res_bind_def split: option.splits sum.splits)

subsection \<open>baseEval\<close>

lemma baseEval_walk_le: "baseEval_walk p ts k \<le> k"
  by (induction k) auto

lemma baseEval_walk_hit:
  "baseEval_walk p ts k = 0 \<or>
   (tape_type (ts ! baseEval_walk p ts k) = INTERVAL \<and> box_contains (ts ! baseEval_walk p ts k) p)"
  by (induction k) auto

lemma baseEval_walk_first:
  "baseEval_walk p ts k < j \<Longrightarrow> j \<le> k \<Longrightarrow>
     \<not> (tape_type (ts ! j) = INTERVAL \<and> box_contains (ts ! j) p)"
proof (induction k)
  case 0
  then show ?case by simp
next
  case (Suc k)
  show ?case
  proof (cases "j = Suc k")
    case True
    with Suc.prems show ?thesis by (auto split: if_splits)
  next
    case False
    with Suc.prems have "j \<le> k" by simp
    moreover from Suc.prems have "baseEval_walk p ts k < j"
      by (auto split: if_splits)
    ultimately show ?thesis using Suc.IH by blast
  qed
qed

text \<open>
  C5, amended. \<^verbatim>\<open>baseEval(p)\<close> evaluates on the tape that \<open>baseEval_walk\<close> finds: the
  first tape met from the cursor toward the base that is an interval tape whose box holds
  \<open>p\<close>, so the deepest such tape at or below the cursor, and the base tape when there is
  none. Every tape between it and the cursor is not an interval tape holding \<open>p\<close>. When
  \<^verbatim>\<open>baseEval\<close> returns, its value is that of \<^verbatim>\<open>eval(p)\<close> on that tape and the cursor is
  where it was before the call.
\<close>

theorem baseEval_nearest_interval:
  "baseEval_walk p (tapes s) (tape s) \<le> tape s \<and>
   (baseEval_walk p (tapes s) (tape s) = 0 \<or>
    (tape_type (tapes s ! baseEval_walk p (tapes s) (tape s)) = INTERVAL \<and>
     box_contains (tapes s ! baseEval_walk p (tapes s) (tape s)) p)) \<and>
   (\<forall>j. baseEval_walk p (tapes s) (tape s) < j \<and> j \<le> tape s \<longrightarrow>
        \<not> (tape_type (tapes s ! j) = INTERVAL \<and> box_contains (tapes s ! j) p)) \<and>
   (\<forall>out s'. baseEval N p s = Some (Inr (out, s')) \<longrightarrow>
        tape s' = tape s \<and>
        (\<exists>s1. eval N p (s\<lparr>tape := baseEval_walk p (tapes s) (tape s)\<rparr>) = Some (Inr (out, s1)) \<and>
              s' = s1\<lparr>tape := tape s\<rparr>))"
proof -
  have 4: "\<And>out s'. baseEval N p s = Some (Inr (out, s')) \<Longrightarrow>
      tape s' = tape s \<and>
      (\<exists>s1. eval N p (s\<lparr>tape := baseEval_walk p (tapes s) (tape s)\<rparr>) = Some (Inr (out, s1)) \<and>
            s' = s1\<lparr>tape := tape s\<rparr>)"
  proof -
    fix out s'
    assume h: "baseEval N p s = Some (Inr (out, s'))"
    let ?s0 = "s\<lparr>tape := baseEval_walk p (tapes s) (tape s)\<rparr>"
    have h': "res_bind (eval N p ?s0) (\<lambda>(out, s1). Some (Inr (out, s1\<lparr>tape := tape s\<rparr>)))
            = Some (Inr (out, s'))"
      using h unfolding baseEval_def Let_def .
    obtain o1 s1 where x: "eval N p ?s0 = Some (Inr (o1, s1))"
    proof (cases "eval N p ?s0")
      case None
      with h' show ?thesis by (simp add: res_bind_def)
    next
      case (Some r)
      show ?thesis
      proof (cases r)
        case (Inl e)
        with Some h' show ?thesis by (simp add: res_bind_def)
      next
        case (Inr y)
        with Some that show ?thesis by (cases y) simp
      qed
    qed
    from h' have e: "(o1, s1\<lparr>tape := tape s\<rparr>) = (out, s')"
      unfolding x by (simp add: res_bind_def)
    then have o: "o1 = out" and s': "s' = s1\<lparr>tape := tape s\<rparr>"
      by (simp_all only: prod.inject)
    have "tape s' = tape s" unfolding s' by simp
    moreover have "eval N p ?s0 = Some (Inr (out, s1))" using x o by simp
    ultimately show "tape s' = tape s \<and>
      (\<exists>s1. eval N p ?s0 = Some (Inr (out, s1)) \<and> s' = s1\<lparr>tape := tape s\<rparr>)"
      using s' by blast
  qed
  have 3: "\<forall>j. baseEval_walk p (tapes s) (tape s) < j \<and> j \<le> tape s \<longrightarrow>
        \<not> (tape_type (tapes s ! j) = INTERVAL \<and> box_contains (tapes s ! j) p)"
    using baseEval_walk_first [of p "tapes s" "tape s"] by blast
  have all4: "\<forall>out s'. baseEval N p s = Some (Inr (out, s')) \<longrightarrow>
        tape s' = tape s \<and>
        (\<exists>s1. eval N p (s\<lparr>tape := baseEval_walk p (tapes s) (tape s)\<rparr>) = Some (Inr (out, s1)) \<and>
              s' = s1\<lparr>tape := tape s\<rparr>)"
    using 4 by (intro allI impI)
  from baseEval_walk_le [of p "tapes s" "tape s"] baseEval_walk_hit [of p "tapes s" "tape s"] 3 all4
  show ?thesis by (intro conjI)
qed

text \<open>The theorem on a stack of two nested interval tapes, at a point in both boxes.\<close>

lemma ex_stack_walk: "baseEval_walk (Fin 1, Fin 1, Fin 1) (tapes ex_stack) (tape ex_stack) = 2"
  by (simp add: ex_stack_def ex_x_def new_Tape_def box_contains_def flt_ge_def flt_le_def
      numeral_2_eq_2)

lemma ex_stack_eval:
  "eval ideal_ops (Fin 1, Fin 1, Fin 1) (ex_stack\<lparr>tape := 2\<rparr>)
     = Some (Inr (Fin 1, set_point (Fin 1, Fin 1, Fin 1) 0 (ex_stack\<lparr>tape := 2\<rparr>)))"
  by (simp add: eval_def values_kernel_def res_bind_def set_point_def cur_def root_values_def
      ex_stack_def ex_x_def new_Tape_def Let_def)

theorem baseEval_nearest_interval_witness:
  "baseEval_walk (Fin 1, Fin 1, Fin 1) (tapes ex_stack) (tape ex_stack) = 2 \<and>
   tape_type (tapes ex_stack ! 2) = INTERVAL \<and>
   box_contains (tapes ex_stack ! 2) (Fin 1, Fin 1, Fin 1) \<and>
   baseEval ideal_ops (Fin 1, Fin 1, Fin 1) ex_stack
     = Some (Inr (Fin 1, (set_point (Fin 1, Fin 1, Fin 1) 0 (ex_stack\<lparr>tape := 2\<rparr>))\<lparr>tape := 2\<rparr>)) \<and>
   tape ((set_point (Fin 1, Fin 1, Fin 1) 0 (ex_stack\<lparr>tape := 2\<rparr>))\<lparr>tape := 2\<rparr>) = tape ex_stack"
proof -
  have t: "tape ex_stack = 2" by (simp add: ex_stack_def)
  have b: "baseEval ideal_ops (Fin 1, Fin 1, Fin 1) ex_stack
     = Some (Inr (Fin 1, (set_point (Fin 1, Fin 1, Fin 1) 0 (ex_stack\<lparr>tape := 2\<rparr>))\<lparr>tape := 2\<rparr>))"
    unfolding baseEval_def Let_def ex_stack_walk ex_stack_eval
    by (simp add: res_bind_def t)
  note th = baseEval_nearest_interval [of "(Fin 1, Fin 1, Fin 1)" ex_stack ideal_ops]
  from th [THEN conjunct2, THEN conjunct2, THEN conjunct2, rule_format, OF b]
  have c: "tape ((set_point (Fin 1, Fin 1, Fin 1) 0 (ex_stack\<lparr>tape := 2\<rparr>))\<lparr>tape := 2\<rparr>) = tape ex_stack"
    by (rule conjunct1)
  from th [THEN conjunct2, THEN conjunct1]
  have d: "tape_type (tapes ex_stack ! 2) = INTERVAL \<and>
        box_contains (tapes ex_stack ! 2) (Fin 1, Fin 1, Fin 1)"
    unfolding ex_stack_walk by simp
  from ex_stack_walk d b c show ?thesis by (intro conjI) simp_all
qed

text \<open>
  C5 as stated fails on that stack: both interval tapes hold the point; the shallowest is
  tape 1, and \<^verbatim>\<open>baseEval\<close> evaluates on tape 2, the first it meets from the cursor.
\<close>

theorem baseEval_shallowest_counterexample:
  "baseEval_walk (Fin 1, Fin 1, Fin 1) (tapes ex_stack) (tape ex_stack) = 2 \<and>
   shallowest_interval (Fin 1, Fin 1, Fin 1) ex_stack = 1"
  by (simp add: ex_stack_walk)
    (simp add: shallowest_interval_def ex_stack_def ex_x_def new_Tape_def box_contains_def
      flt_ge_def flt_le_def upt_rec)

subsection \<open>The MOD case of the value kernel\<close>

text \<open>
  The loop of the \<^verbatim>\<open>MOD\<close> case never ends when the cell starts in a set \<open>Q\<close> of negative
  values that adding the divisor does not leave. For IEEE floats and a negative divisor,
  the negative values (with \<open>-\<infinity>\<close>) are such a set.
\<close>

lemma mod_loop_diverges:
  assumes nb: "i \<noteq> b"
    and q: "Q (m i k)"
    and st: "\<And>x. Q x \<Longrightarrow> flt_lt x (Fin 0) \<and> Q (fadd N x (m b k))"
  shows "mod_loop N i b k m = None"
proof (rule ccontr)
  let ?inv = "\<lambda>N i b k (m :: rows).
    i \<noteq> b \<and> Q (m i k) \<and> (\<forall>x. Q x \<longrightarrow> flt_lt x (Fin 0) \<and> Q (fadd N x (m b k)))"
  assume "mod_loop N i b k m \<noteq> None"
  then obtain y where y: "mod_loop N i b k m = Some y" by auto
  have "\<not> ?inv N i b k m"
  proof (rule mod_loop.raw_induct [where P = "\<lambda>N i b k m y. \<not> ?inv N i b k m", OF _ y])
    fix f N i b k and m y :: rows
    assume IH: "\<And>N i b k m y. f N i b k m = Some y \<Longrightarrow> \<not> ?inv N i b k m"
      and body: "(if flt_lt (m i k) (Fin 0)
                  then f N i b k (m(i := (m i)(k := fadd N (m i k) (m b k)))) else Some m) = Some y"
    show "\<not> ?inv N i b k m"
    proof
      assume inv: "?inv N i b k m"
      then have lt: "flt_lt (m i k) (Fin 0)" by blast
      with body have "f N i b k (m(i := (m i)(k := fadd N (m i k) (m b k)))) = Some y"
        by simp
      from IH [OF this] have "\<not> ?inv N i b k (m(i := (m i)(k := fadd N (m i k) (m b k))))" .
      moreover have "?inv N i b k (m(i := (m i)(k := fadd N (m i k) (m b k))))"
        using inv by simp
      ultimately show False ..
    qed
  qed
  with nb q st show False by blast
qed

text \<open>The hang at \<open>mod(x, y)\<close>, \<open>x = -1\<close>, \<open>y = -2\<close>, with exact arithmetic.\<close>

lemma ex_mod_fmod: "ffmod ideal_ops (Fin (- 1)) (Fin (- 2)) = Fin (- 1)"
  by (simp add: ideal_ops_def lift2_def real_fmod_def)

lemma ex_mod_loop:
  "mod_loop ideal_ops 1 2 0 (m(1 := (m 1)(0 := Fin (- 1)), 2 := (m 2)(0 := Fin (- 2)))) = None"
    (is "mod_loop _ _ _ _ ?m = None")
proof (rule mod_loop_diverges [where Q = "\<lambda>x. \<exists>a. x = Fin a \<and> a < 0"])
  show "(1::nat) \<noteq> 2" by simp
  show "\<exists>a. ?m 1 0 = Fin a \<and> a < 0" by simp
  fix x
  assume "\<exists>a. x = Fin a \<and> a < 0"
  then obtain a where a: "x = Fin a" "a < 0" by blast
  have "fadd ideal_ops x (?m 2 0) = Fin (a - 2)"
    by (simp add: a ideal_ops_def lift2_def)
  with a show "flt_lt x (Fin 0) \<and> (\<exists>a. fadd ideal_ops x (?m 2 0) = Fin a \<and> a < 0)"
    by simp
qed

lemma ex_mod_values_hang:
  "values_kernel ideal_ops 1 (set_point (Fin (- 1), Fin (- 2), Fin 0) 0 ex_mod) = None"
proof -
  let ?m = "res_f (result (set_point (Fin (- 1), Fin (- 2), Fin 0) 0 ex_mod))"
  have cur: "tape_t (cur (set_point (Fin (- 1), Fin (- 2), Fin 0) 0 ex_mod))
      = [\<lparr>clause_op = OP_MOD, clause_id = 1, clause_a = 3, clause_b = 2\<rparr>]"
    by (simp add: set_point_def cur_def ex_mod_def Let_def)
  have a: "?m 3 0 = Fin (- 1)" and b: "?m 2 0 = Fin (- 2)"
    by (simp_all add: set_point_def ex_mod_def Let_def)
  have m2: "?m(1 := (?m 1)(0 := Fin (- 1))) = ?m(1 := (?m 1)(0 := Fin (- 1)), 2 := (?m 2)(0 := Fin (- 2)))"
    using b by (auto simp: fun_eq_iff)
  have "mod_cols ideal_ops \<lparr>clause_op = OP_MOD, clause_id = 1, clause_a = 3, clause_b = 2\<rparr> [0] ?m = None"
    apply (simp only: mod_cols.simps Clause.simps a b ex_mod_fmod)
    apply (subst m2)
    apply (simp only: ex_mod_loop option.case)
    done
  then have "values_clause ideal_ops 1 \<lparr>clause_op = OP_MOD, clause_id = 1, clause_a = 3, clause_b = 2\<rparr> ?m = None"
    by (simp add: values_clause_def)
  then show ?thesis
    by (simp add: values_kernel_def cur res_bind_def)
qed

text \<open>
  C4. The claim gives every \<^verbatim>\<open>MOD\<close> clause and column a result, the floored modulus.
  For \<open>mod(x, y)\<close> at \<open>x = -1\<close>, \<open>y = -2\<close> the code has none: \<^verbatim>\<open>fmod(-1, -2)\<close> is
  \<open>-1\<close>, the loop adds \<open>-2\<close> while the cell is negative, and \<^verbatim>\<open>eval\<close> never returns.
  (The floored modulus of \<open>-1\<close> and \<open>-2\<close> is \<open>-1\<close>.)
\<close>

theorem values_MOD_never_returns:
  "values_kernel ideal_ops 1 (set_point (Fin (- 1), Fin (- 2), Fin 0) 0 ex_mod) = None \<and>
   eval ideal_ops (Fin (- 1), Fin (- 2), Fin 0) ex_mod = None"
  unfolding eval_def ex_mod_values_hang res_bind_simps by simp

subsection \<open>isInside\<close>

text \<open>
  C6. When the value at \<open>p\<close> is exactly 0 and the current tape is not ambiguous there,
  \<^verbatim>\<open>isInside(p)\<close> returns whether some component of the gradient at \<open>p\<close> differs from 0.
\<close>

theorem isInside_boundary:
  assumes d: "derivs_kernel N 1 (set_point p 0 s) = Some (Inr s1)"
    and r: "root_derivs s1 0 = (v, dx, dy, dz)"
    and z: "flt_eq v (Fin 0)"
    and na: "\<not> isAmbiguous s1"
  shows "isInside N F p s
           = Some (Inr (flt_ne dx (Fin 0) \<or> flt_ne dy (Fin 0) \<or> flt_ne dz (Fin 0), s1))"
proof -
  from z have v: "v = Fin 0" by (simp add: flt_eq_def)
  show ?thesis
    unfolding isInside_def d res_bind_simps r prod.case v
    using na by (simp add: flt_gt_def)
qed

text \<open>The theorem at \<open>f = x\<close> and the origin: the value is 0, the gradient (1, 0, 0).\<close>

lemma ex_x_derivs:
  "derivs_kernel ideal_ops 1 (set_point (Fin 0, Fin 0, Fin 0) 0 ex_x)
     = Some (Inr (set_point (Fin 0, Fin 0, Fin 0) 0 ex_x))"
  by (simp add: derivs_kernel_def values_kernel_def res_bind_def set_point_def cur_def
      ex_x_def new_Tape_def Let_def)

theorem isInside_boundary_witness:
  "derivs_kernel ideal_ops 1 (set_point (Fin 0, Fin 0, Fin 0) 0 ex_x)
     = Some (Inr (set_point (Fin 0, Fin 0, Fin 0) 0 ex_x)) \<and>
   root_derivs (set_point (Fin 0, Fin 0, Fin 0) 0 ex_x) 0 = (Fin 0, Fin 1, Fin 0, Fin 0) \<and>
   flt_eq (Fin 0) (Fin 0) \<and>
   \<not> isAmbiguous (set_point (Fin 0, Fin 0, Fin 0) 0 ex_x) \<and>
   isInside ideal_ops plain_features (Fin 0, Fin 0, Fin 0) ex_x
     = Some (Inr (True, set_point (Fin 0, Fin 0, Fin 0) 0 ex_x))"
proof -
  have r: "root_derivs (set_point (Fin 0, Fin 0, Fin 0) 0 ex_x) 0 = (Fin 0, Fin 1, Fin 0, Fin 0)"
    by (simp add: root_derivs_def set_point_def cur_def ex_x_def new_Tape_def Let_def)
  have z: "flt_eq (Fin 0) (Fin 0)" by (simp add: flt_eq_def)
  have na: "\<not> isAmbiguous (set_point (Fin 0, Fin 0, Fin 0) 0 ex_x)"
    by (simp add: isAmbiguous_def set_point_def cur_def ex_x_def new_Tape_def Let_def)
  have t: "(flt_ne (Fin 1) (Fin 0) \<or> flt_ne (Fin 0) (Fin 0) \<or> flt_ne (Fin 0) (Fin 0)) = True"
    by (simp add: flt_ne_def flt_eq_def)
  from isInside_boundary [OF ex_x_derivs r z na, of plain_features]
  have "isInside ideal_ops plain_features (Fin 0, Fin 0, Fin 0) ex_x
     = Some (Inr (True, set_point (Fin 0, Fin 0, Fin 0) 0 ex_x))"
    unfolding t .
  with ex_x_derivs r z na show ?thesis by (intro conjI)
qed

subsection \<open>pushTape\<close>

lemma chase_fixed_point:
  assumes c: "chase rm x = Some y"
  shows "remap_fixed_point rm x y"
proof (rule chase.raw_induct [where P = "\<lambda>rm x y. remap_fixed_point rm x y", OF _ c])
  fix f and rm :: "nat \<Rightarrow> nat" and x y :: nat
  assume IH: "\<And>rm x y. f rm x = Some y \<Longrightarrow> remap_fixed_point rm x y"
    and body: "(if rm x = 0 then Some x else f rm (rm x)) = Some y"
  show "remap_fixed_point rm x y"
  proof (cases "rm x = 0")
    case True
    with body have "y = x" by simp
    with True show ?thesis
      by (auto simp: remap_fixed_point_def intro: exI [of _ 0])
  next
    case False
    with body have "f rm (rm x) = Some y" by simp
    from IH [OF this] obtain n where z: "rm y = 0" and n: "(rm ^^ n) (rm x) = y"
      and nz: "\<forall>k<n. rm ((rm ^^ k) (rm x)) \<noteq> 0"
      by (auto simp: remap_fixed_point_def)
    have "(rm ^^ Suc n) x = y" using n by (simp add: funpow_swap1)
    moreover have "\<forall>k<Suc n. rm ((rm ^^ k) x) \<noteq> 0"
    proof (intro allI impI)
      fix k assume k: "k < Suc n"
      show "rm ((rm ^^ k) x) \<noteq> 0"
      proof (cases k)
        case 0
        with False show ?thesis by simp
      next
        case (Suc j)
        with k nz have "rm ((rm ^^ j) (rm x)) \<noteq> 0" by simp
        with Suc show ?thesis by (simp add: funpow_swap1)
      qed
    qed
    ultimately show ?thesis
      using z unfolding remap_fixed_point_def by blast
  qed
qed

lemma chase_terminates:
  assumes up: "\<And>r. rm r \<noteq> 0 \<Longrightarrow> r < rm r \<and> rm r < n"
  shows "\<exists>y. chase rm x = Some y"
proof (induction "n - x" arbitrary: x rule: less_induct)
  case less
  show ?case
  proof (cases "rm x = 0")
    case True
    then show ?thesis by (subst chase.simps) simp
  next
    case False
    from up [OF False] have "n - rm x < n - x" by arith
    from less [OF this] obtain y where "chase rm (rm x) = Some y" ..
    with False show ?thesis by (subst chase.simps) simp
  qed
qed

lemma pushTape_loop_spec:
  "pushTape_loop d rm cs out = Some cs' \<Longrightarrow>
     \<exists>new. cs' = out @ new \<and>
           list_all2 (rewritten rm) (filter (\<lambda>c. \<not> d (clause_id c)) cs) new"
proof (induction cs arbitrary: out)
  case Nil
  then show ?case by simp
next
  case (Cons c cs)
  show ?case
  proof (cases "d (clause_id c)")
    case True
    with Cons.prems have "pushTape_loop d rm cs out = Some cs'" by simp
    from Cons.IH [OF this] True show ?thesis by simp
  next
    case False
    with Cons.prems obtain ra rb where ra: "chase rm (clause_a c) = Some ra"
      and rb: "chase rm (clause_b c) = Some rb"
      and rest: "pushTape_loop d rm cs
                   (out @ [\<lparr>clause_op = clause_op c, clause_id = clause_id c,
                            clause_a = ra, clause_b = rb\<rparr>]) = Some cs'"
      by (auto split: option.splits)
    from Cons.IH [OF rest] obtain new where
      new: "cs' = (out @ [\<lparr>clause_op = clause_op c, clause_id = clause_id c,
                            clause_a = ra, clause_b = rb\<rparr>]) @ new"
      and l: "list_all2 (rewritten rm) (filter (\<lambda>c. \<not> d (clause_id c)) cs) new"
      by blast
    have "rewritten rm c \<lparr>clause_op = clause_op c, clause_id = clause_id c,
                            clause_a = ra, clause_b = rb\<rparr>"
      using chase_fixed_point [OF ra] chase_fixed_point [OF rb] by (simp add: rewritten_def)
    with new l False show ?thesis by simp
  qed
qed

lemma pushTape_loop_terminates:
  assumes up: "\<And>r. rm r \<noteq> 0 \<Longrightarrow> r < rm r \<and> rm r < n"
  shows "\<exists>cs'. pushTape_loop d rm cs out = Some cs'"
proof (induction cs arbitrary: out)
  case Nil
  then show ?case by simp
next
  case (Cons c cs)
  from chase_terminates [of rm n, OF up] obtain ra where ra: "chase rm (clause_a c) = Some ra"
    by blast
  from chase_terminates [of rm n, OF up] obtain rb where rb: "chase rm (clause_b c) = Some rb"
    by blast
  show ?case using Cons.IH ra rb by simp
qed

lemma pushTape_loop_length:
  assumes "pushTape_loop d rm cs [] = Some cs'"
  shows "length cs' \<le> length cs"
proof -
  from pushTape_loop_spec [OF assms] have
    "list_all2 (rewritten rm) (filter (\<lambda>c. \<not> d (clause_id c)) cs) cs'" by simp
  then have "length cs' = length (filter (\<lambda>c. \<not> d (clause_id c)) cs)"
    by (simp add: list_all2_lengthD)
  then show ?thesis by simp
qed

text \<open>The list of tapes pushTape leaves, and what it holds under the new cursor.\<close>

lemma pushTape_cases:
  assumes cursor: "tape s < length (tapes s)"
  obtains (hang) "pushTape ty s = None"
  | (ok) cs r ts where
      "pushTape_loop (disabled s) (remap s) (tape_t (cur s)) [] = Some cs"
      "chase (remap s) (tape_i (cur s)) = Some r"
      "pushTape ty s = Some (Inr (s\<lparr>tapes := ts, tape := Suc (tape s)\<rparr>))"
      "Suc (tape s) < length ts"
      "take (Suc (tape s)) ts = take (Suc (tape s)) (tapes s)"
      "tape_t (ts ! Suc (tape s)) = cs"
      "tape_i (ts ! Suc (tape s)) = r"
      "tape_type (ts ! Suc (tape s)) = ty"
proof -
  let ?k = "Suc (tape s)"
  let ?ts = "if ?k = length (tapes s) then tapes s @ [new_Tape]
             else (tapes s)[?k := (tapes s ! ?k)\<lparr>tape_t := []\<rparr>]"
  let ?ts1 = "?ts[?k := (?ts ! ?k)\<lparr>tape_type := ty\<rparr>]"
  have len: "?k < length ?ts1" using cursor by auto
  have emp: "tape_t (?ts1 ! ?k) = []"
    using cursor by (auto simp: nth_append new_Tape_def)
  have tk: "take ?k ?ts1 = take ?k (tapes s)"
    using cursor by auto
  have ty: "\<And>cs r. tape_type ((?ts1[?k := (?ts1 ! ?k)\<lparr>tape_t := cs, tape_i := r\<rparr>]) ! ?k) = ty"
    using cursor by (auto simp: nth_append)
  show ?thesis
  proof (cases "pushTape_loop (disabled s) (remap s) (tape_t (cur s)) []")
    case None
    then have "pushTape ty s = None"
      by (simp add: pushTape_def Let_def emp)
    then show ?thesis by (rule hang)
  next
    case (Some cs)
    note loop = Some
    show ?thesis
    proof (cases "chase (remap s) (tape_i (cur s))")
      case None
      with loop have "pushTape ty s = None"
        by (simp add: pushTape_def Let_def emp)
      then show ?thesis by (rule hang)
    next
      case (Some r)
      let ?ts2 = "?ts1[?k := (?ts1 ! ?k)\<lparr>tape_t := cs, tape_i := r\<rparr>]"
      have le: "length cs \<le> length (tape_t (cur s))"
        using pushTape_loop_length [OF loop] .
      have p: "pushTape ty s = Some (Inr (s\<lparr>tapes := ?ts2, tape := ?k\<rparr>))"
        using loop Some le by (simp add: pushTape_def Let_def emp)
      have l2: "?k < length ?ts2" using len by simp
      have t2: "take ?k ?ts2 = take ?k (tapes s)" using tk by simp
      have c2: "tape_t (?ts2 ! ?k) = cs" using len by simp
      have r2: "tape_i (?ts2 ! ?k) = r" using len by simp
      show ?thesis
        using ok [OF loop Some p l2 t2 c2 r2 ty] .
    qed
  qed
qed

lemma pushTape_never_aborts: "tape s < length (tapes s) \<Longrightarrow> pushTape ty s \<noteq> Some (Inl e)"
  by (erule pushTape_cases [of s ty]) simp_all

lemma nth_take_same:
  assumes "take (Suc k) ts = take (Suc k) ts'"
  shows "ts ! k = ts' ! k"
proof -
  have "ts ! k = take (Suc k) ts ! k" by simp
  also have "\<dots> = take (Suc k) ts' ! k" by (simp only: assms)
  also have "\<dots> = ts' ! k" by simp
  finally show ?thesis .
qed

lemma pushTape_spec:
  assumes cursor: "tape s < length (tapes s)"
    and p: "pushTape ty s = Some (Inr s')"
  shows "tape s' = Suc (tape s) \<and> tape s' < length (tapes s') \<and>
         take (Suc (tape s)) (tapes s') = take (Suc (tape s)) (tapes s) \<and>
         s'\<lparr>tapes := tapes s, tape := tape s\<rparr> = s \<and>
         tape_type (cur s') = ty \<and>
         reduced_tape (remap s) (cur s) (cur s')"
proof (rule pushTape_cases [OF cursor, of ty])
  assume "pushTape ty s = None"
  with p show ?thesis by simp
next
  fix cs r ts
  assume loop: "pushTape_loop (disabled s) (remap s) (tape_t (cur s)) [] = Some cs"
    and ch: "chase (remap s) (tape_i (cur s)) = Some r"
    and pp: "pushTape ty s = Some (Inr (s\<lparr>tapes := ts, tape := Suc (tape s)\<rparr>))"
    and len: "Suc (tape s) < length ts"
    and tk: "take (Suc (tape s)) ts = take (Suc (tape s)) (tapes s)"
    and tt: "tape_t (ts ! Suc (tape s)) = cs"
    and ti: "tape_i (ts ! Suc (tape s)) = r"
    and ty: "tape_type (ts ! Suc (tape s)) = ty"
  from p pp have s': "s' = s\<lparr>tapes := ts, tape := Suc (tape s)\<rparr>" by simp
  have c': "cur s' = ts ! Suc (tape s)" by (simp add: s' cur_def)
  from pushTape_loop_spec [OF loop]
  have l: "list_all2 (rewritten (remap s)) (filter (\<lambda>c. \<not> disabled s (clause_id c)) (tape_t (cur s))) cs"
    by simp
  have "subseq (filter (\<lambda>c. \<not> disabled s (clause_id c)) (tape_t (cur s))) (tape_t (cur s))"
    by simp
  with l have k: "\<exists>kept. subseq kept (tape_t (cur s)) \<and> list_all2 (rewritten (remap s)) kept cs"
    by blast
  have red: "reduced_tape (remap s) (cur s) (cur s')"
    unfolding reduced_tape_def c' tt ti
    using k chase_fixed_point [OF ch] pushTape_loop_length [OF loop] by simp
  have "tape_type (cur s') = ty" unfolding c' by (rule ty)
  moreover have "s'\<lparr>tapes := tapes s, tape := tape s\<rparr> = s" by (simp add: s')
  moreover have "tape s' = Suc (tape s)" "tape s' < length (tapes s')"
    "take (Suc (tape s)) (tapes s') = take (Suc (tape s)) (tapes s)"
    using len tk by (simp_all add: s')
  ultimately show ?thesis using red by (intro conjI)
qed

lemma pushTape_returns:
  assumes cursor: "tape s < length (tapes s)"
    and up: "\<And>r. remap s r \<noteq> 0 \<Longrightarrow> r < remap s r \<and> remap s r < n"
  shows "\<exists>s'. pushTape ty s = Some (Inr s')"
proof (rule pushTape_cases [OF cursor, of ty])
  assume h: "pushTape ty s = None"
  from pushTape_loop_terminates [of "remap s" n, OF up] obtain cs where
    cs: "pushTape_loop (disabled s) (remap s) (tape_t (cur s)) [] = Some cs" by blast
  from chase_terminates [of "remap s" n, OF up] obtain r where
    r: "chase (remap s) (tape_i (cur s)) = Some r" by blast
  have False
  proof (rule pushTape_cases [OF cursor, of ty])
    assume "pushTape ty s = None"
    then show False
      using cs r cursor
      by (auto simp: pushTape_def Let_def nth_append new_Tape_def split: if_splits)
  next
    fix cs r ts
    assume "pushTape ty s = Some (Inr (s\<lparr>tapes := ts, tape := Suc (tape s)\<rparr>))"
    with h show False by simp
  qed
  then show ?thesis ..
next
  fix cs r ts
  assume "pushTape ty s = Some (Inr (s\<lparr>tapes := ts, tape := Suc (tape s)\<rparr>))"
  then show ?thesis by blast
qed

subsection \<open>The marking loops\<close>

lemma frame_refl: "frame s s"
  by (simp add: frame_def)

lemma frame_trans: "frame s s' \<Longrightarrow> frame s' s'' \<Longrightarrow> frame s s''"
  by (cases s; cases s'; cases s'') (simp add: frame_def)

lemma frame_fields:
  "frame s s' \<Longrightarrow> tapes s' = tapes s \<and> tape s' = tape s \<and> result s' = result s \<and>
     X_id s' = X_id s \<and> Y_id s' = Y_id s \<and> Z_id s' = Z_id s \<and> vars s' = vars s \<and> cur s' = cur s"
  by (cases s; cases s') (simp add: frame_def cur_def)

lemma frame_push_init: "frame s (push_init s)"
  by (cases s) (simp add: frame_def push_init_def Let_def)

lemma frame_collapse_to: "frame s (collapse_to c x s)"
  by (cases s) (simp add: frame_def collapse_to_def)

lemma frame_push_keep: "frame s (push_keep c s)"
  by (cases s) (simp add: frame_def push_keep_def)

lemma frame_push_minmax: "frame s (push_minmax c s)"
  by (simp add: push_minmax_def Let_def frame_collapse_to frame_refl)

lemma frame_specialize_minmax: "frame s (specialize_minmax c s)"
  by (simp add: specialize_minmax_def Let_def frame_collapse_to frame_refl)

lemma frame_push_clause: "frame s (push_clause c s)"
  unfolding push_clause_def
  using frame_trans [OF frame_push_minmax frame_push_keep] frame_refl by simp

lemma frame_specialize_clause: "frame s (specialize_clause c s)"
  unfolding specialize_clause_def
  using frame_trans [OF frame_specialize_minmax frame_push_keep] frame_refl by simp

lemma frame_fold:
  assumes "\<And>c s. frame s (step c s)"
  shows "frame s (fold step cs s)"
proof (induction cs arbitrary: s)
  case Nil
  show ?case by (simp add: frame_refl)
next
  case (Cons c cs)
  have "frame s (step c s)" by (rule assms)
  from frame_trans [OF this Cons] show ?case by simp
qed

lemma frame_push_marks: "frame s (push_marks s)"
  unfolding push_marks_def
  by (rule frame_trans [OF frame_push_init frame_fold]) (rule frame_push_clause)

lemma frame_specialize_marks: "frame s (specialize_marks s)"
  unfolding specialize_marks_def
  by (rule frame_trans [OF frame_push_init frame_fold]) (rule frame_specialize_clause)

lemma frame_push_feature_clause:
  "frame (fst st) (fst (push_feature_clause F f c st))"
proof -
  obtain s out itr where st: "st = (s, out, itr)" by (cases st)
  have k: "\<And>x. frame s (push_keep c (collapse_to c x s))"
    by (rule frame_trans [OF frame_collapse_to frame_push_keep])
  show ?thesis
    unfolding st push_feature_clause_def
    by (simp add: Let_def frame_refl frame_push_keep k)
qed

lemma frame_fold_fst:
  assumes "\<And>c st. frame (fst st) (fst (step c st))"
  shows "frame (fst st) (fst (fold step cs st))"
proof (induction cs arbitrary: st)
  case Nil
  show ?case by (simp add: frame_refl)
next
  case (Cons c cs)
  have "frame (fst st) (fst (step c st))" by (rule assms)
  from frame_trans [OF this Cons] show ?case by simp
qed

lemma frame_push_feature_marks: "frame s (fst (push_feature_marks F f s))"
proof -
  have "frame (fst (push_init s, feature_set_deriv F (feature_deriv F f) (feature_new F),
                    feature_getChoices F f))
          (fst (push_feature_marks F f s))"
    unfolding push_feature_marks_def
    by (rule frame_fold_fst) (rule frame_push_feature_clause)
  then have "frame (push_init s) (fst (push_feature_marks F f s))" by simp
  from frame_trans [OF frame_push_init this] show ?thesis .
qed

text \<open>The remap tables the loops write.\<close>

lemma remap_from_mono: "remap_from cs rm \<Longrightarrow> set cs \<subseteq> set cs' \<Longrightarrow> remap_from cs' rm"
  unfolding remap_from_def by blast

lemma remap_from_collapse_to:
  assumes "remap_from cs (remap s)" "c \<in> set cs" "x = clause_a c \<or> x = clause_b c"
  shows "remap_from cs (remap (collapse_to c x s))"
  using assms unfolding remap_from_def collapse_to_def by auto

lemma remap_from_push_keep: "remap_from cs (remap s) \<Longrightarrow> remap_from cs (remap (push_keep c s))"
  by (simp add: push_keep_remap)

lemma remap_from_push_minmax:
  assumes "remap_from cs (remap s)" "c \<in> set cs"
  shows "remap_from cs (remap (push_minmax c s))"
  unfolding push_minmax_def Let_def
  using assms remap_from_collapse_to [OF assms] by simp

lemma remap_from_specialize_minmax:
  assumes "remap_from cs (remap s)" "c \<in> set cs"
  shows "remap_from cs (remap (specialize_minmax c s))"
  unfolding specialize_minmax_def Let_def
  using assms remap_from_collapse_to [OF assms] by simp

lemma remap_from_push_clause:
  assumes "remap_from cs (remap s)" "c \<in> set cs"
  shows "remap_from cs (remap (push_clause c s))"
  unfolding push_clause_def
  using assms remap_from_push_minmax [OF assms] by (simp add: push_keep_remap)

lemma remap_from_specialize_clause:
  assumes "remap_from cs (remap s)" "c \<in> set cs"
  shows "remap_from cs (remap (specialize_clause c s))"
  unfolding specialize_clause_def
  using assms remap_from_specialize_minmax [OF assms] by (simp add: push_keep_remap)

lemma remap_from_push_feature_clause:
  assumes "remap_from cs (remap (fst st))" "c \<in> set cs"
  shows "remap_from cs (remap (fst (push_feature_clause F f c st)))"
proof -
  obtain s out itr where st: "st = (s, out, itr)" by (cases st)
  from assms have r: "remap_from cs (remap s)" by (simp add: st)
  have k: "\<And>x. x = clause_a c \<or> x = clause_b c \<Longrightarrow>
      remap_from cs (remap (push_keep c (collapse_to c x s)))"
    using remap_from_collapse_to [OF r assms(2)] by (simp add: push_keep_remap)
  show ?thesis
    unfolding st push_feature_clause_def
    using r k by (simp add: Let_def push_keep_remap)
qed

lemma remap_from_fold:
  assumes step: "\<And>c s. remap_from cs (remap s) \<Longrightarrow> c \<in> set cs \<Longrightarrow> remap_from cs (remap (step c s))"
    and "remap_from cs (remap s)" "set pre \<subseteq> set cs"
  shows "remap_from cs (remap (fold step pre s))"
  using assms(2,3)
proof (induction pre arbitrary: s)
  case Nil
  then show ?case by simp
next
  case (Cons c pre)
  from Cons.prems have "remap_from cs (remap (step c s))" by (intro step) simp_all
  with Cons show ?case by simp
qed

lemma remap_from_fold_fst:
  assumes step: "\<And>c st. remap_from cs (remap (fst st)) \<Longrightarrow> c \<in> set cs
                   \<Longrightarrow> remap_from cs (remap (fst (step c st)))"
    and "remap_from cs (remap (fst st))" "set pre \<subseteq> set cs"
  shows "remap_from cs (remap (fst (fold step pre st)))"
  using assms(2,3)
proof (induction pre arbitrary: st)
  case Nil
  then show ?case by simp
next
  case (Cons c pre)
  from Cons.prems have "remap_from cs (remap (fst (step c st)))" by (intro step) simp_all
  with Cons show ?case by simp
qed

lemma remap_from_push_init: "remap_from cs (remap (push_init s))"
  by (simp add: remap_from_def push_init_remap)

lemma cur_push_init: "cur (push_init s) = cur s"
  using frame_fields [OF frame_push_init] by simp

lemma remap_from_push_marks: "remap_from (tape_t (cur s)) (remap (push_marks s))"
  unfolding push_marks_def cur_push_init
  by (rule remap_from_fold) (simp_all add: remap_from_push_clause remap_from_push_init)

lemma remap_from_specialize_marks: "remap_from (tape_t (cur s)) (remap (specialize_marks s))"
  unfolding specialize_marks_def cur_push_init
  by (rule remap_from_fold) (simp_all add: remap_from_specialize_clause remap_from_push_init)

lemma remap_from_push_feature_marks:
  "remap_from (tape_t (cur s)) (remap (fst (push_feature_marks F f s)))"
  unfolding push_feature_marks_def
  by (rule remap_from_fold_fst) (simp_all add: remap_from_push_feature_clause remap_from_push_init)

text \<open>On a well-formed tape such a table only points upwards, below a bound.\<close>

lemma remap_from_upwards:
  assumes rf: "remap_from cs rm" and wf: "list_all wf_clause cs"
  shows "\<exists>n. \<forall>r. rm r \<noteq> 0 \<longrightarrow> r < rm r \<and> rm r < n"
proof -
  let ?n = "Suc (Max (insert 0 (clause_a ` set cs \<union> clause_b ` set cs)))"
  have "\<forall>r. rm r \<noteq> 0 \<longrightarrow> r < rm r \<and> rm r < ?n"
  proof (intro allI impI)
    fix r assume nz: "rm r \<noteq> 0"
    with rf obtain c where c: "c \<in> set cs" "clause_id c = r" "rm r = clause_a c \<or> rm r = clause_b c"
      unfolding remap_from_def by blast
    from wf c(1) have w: "wf_clause c" by (simp add: list_all_iff)
    have "rm r \<in> insert 0 (clause_a ` set cs \<union> clause_b ` set cs)"
      using c by auto
    then have "rm r \<le> Max (insert 0 (clause_a ` set cs \<union> clause_b ` set cs))"
      by (intro Max_ge) simp_all
    moreover have "r < rm r"
      using w c nz unfolding wf_clause_def by auto
    ultimately show "r < rm r \<and> rm r < ?n" by simp
  qed
  then show ?thesis ..
qed

subsection \<open>The kernels leave the tape stack alone\<close>

lemma set_point_frame:
  "set_point p k s = s\<lparr>result := result (set_point p k s)\<rparr>"
  by (cases p) (simp add: set_point_def Let_def)

lemma set_point_fields:
  "tapes (set_point p k s) = tapes s \<and> tape (set_point p k s) = tape s \<and>
   cur (set_point p k s) = cur s \<and> disabled (set_point p k s) = disabled s \<and>
   remap (set_point p k s) = remap s"
  by (cases p) (simp add: set_point_def Let_def cur_def)

lemma values_kernel_fields:
  assumes "values_kernel N n s = Some (Inr s')"
  shows "tapes s' = tapes s \<and> tape s' = tape s \<and> cur s' = cur s \<and>
         disabled s' = disabled s \<and> remap s' = remap s"
proof (cases "run_clauses (values_clause N n) (rev (tape_t (cur s))) (res_f (result s))")
  case None
  with assms show ?thesis by (simp add: values_kernel_def res_bind_def)
next
  case (Some r)
  show ?thesis
  proof (cases r)
    case (Inl e)
    with Some assms show ?thesis by (simp add: values_kernel_def res_bind_def)
  next
    case (Inr m)
    with Some assms have "s' = s\<lparr>result := (result s)\<lparr>res_f := m\<rparr>\<rparr>"
      by (simp add: values_kernel_def res_bind_def)
    then show ?thesis by (simp add: cur_def)
  qed
qed

lemma eval_fields:
  assumes "eval N p s = Some (Inr (v, s'))"
  shows "tapes s' = tapes s \<and> tape s' = tape s \<and> cur s' = cur s \<and>
         disabled s' = disabled s \<and> remap s' = remap s"
proof (cases "values_kernel N 1 (set_point p 0 s)")
  case None
  with assms show ?thesis by (simp add: eval_def res_bind_def)
next
  case (Some r)
  show ?thesis
  proof (cases r)
    case (Inl e)
    with Some assms show ?thesis by (simp add: eval_def res_bind_def)
  next
    case (Inr s1)
    with Some assms have "s' = s1" by (simp add: eval_def res_bind_def)
    with Some Inr values_kernel_fields [of N 1 "set_point p 0 s" s1] set_point_fields [of p 0 s]
    show ?thesis by simp
  qed
qed

subsection \<open>Every push makes a reduced tape\<close>

lemma pushTape_after_marks:
  assumes cursor: "tape s < length (tapes s)"
    and wf: "list_all wf_clause (tape_t (cur s))"
    and fr: "frame s m"
    and rf: "remap_from (tape_t (cur s)) (remap m)"
  shows "\<exists>s'. pushTape ty m = Some (Inr s') \<and> reduced_tape (remap s') (cur s) (cur s') \<and>
              tape s' = Suc (tape s) \<and> tape_type (cur s') = ty"
proof -
  from frame_fields [OF fr] have f: "tapes m = tapes s" "tape m = tape s" "cur m = cur s"
    by simp_all
  from remap_from_upwards [OF rf wf] obtain n where
    up: "\<forall>r. remap m r \<noteq> 0 \<longrightarrow> r < remap m r \<and> remap m r < n" ..
  have cm: "tape m < length (tapes m)" using cursor f by simp
  from up have "\<And>r. remap m r \<noteq> 0 \<Longrightarrow> r < remap m r \<and> remap m r < n" by blast
  from pushTape_returns [OF cm this] obtain s' where p: "pushTape ty m = Some (Inr s')"
    by blast
  note sp = pushTape_spec [OF cm p]
  from sp have "s'\<lparr>tapes := tapes m, tape := tape m\<rparr> = m" by blast
  then have "remap (s'\<lparr>tapes := tapes m, tape := tape m\<rparr>) = remap m" by simp
  then have rm: "remap s' = remap m" by simp
  from sp have "reduced_tape (remap m) (cur m) (cur s')" by blast
  then have "reduced_tape (remap s') (cur s) (cur s')" by (simp add: rm f)
  moreover from sp have "tape s' = Suc (tape s)" "tape_type (cur s') = ty"
    by (simp_all add: f)
  ultimately show ?thesis using p by blast
qed

lemma set_box_fields:
  "tape s < length (tapes s) \<Longrightarrow>
     tape (set_box s) = tape s \<and> remap (set_box s) = remap s \<and>
     tape_t (cur (set_box s)) = tape_t (cur s) \<and> tape_i (cur (set_box s)) = tape_i (cur s) \<and>
     tape_type (cur (set_box s)) = tape_type (cur s)"
  by (simp add: set_box_def cur_def)

lemma reduced_tape_cong:
  "tape_t new' = tape_t new \<Longrightarrow> tape_i new' = tape_i new \<Longrightarrow>
     reduced_tape rm parent new \<Longrightarrow> reduced_tape rm parent new'"
  by (simp add: reduced_tape_def)

lemma push_reduced:
  assumes cursor: "tape s < length (tapes s)"
    and wf: "list_all wf_clause (tape_t (cur s))"
  shows "\<exists>s'. push s = Some (Inr s') \<and> reduced_tape (remap s') (cur s) (cur s') \<and>
              tape_type (cur s') = INTERVAL"
proof -
  from pushTape_after_marks [OF cursor wf frame_push_marks remap_from_push_marks, of INTERVAL]
  obtain s1 where p: "pushTape INTERVAL (push_marks s) = Some (Inr s1)"
    and red: "reduced_tape (remap s1) (cur s) (cur s1)"
    and t: "tape s1 = Suc (tape s)" and ty: "tape_type (cur s1) = INTERVAL"
    by blast
  from frame_fields [OF frame_push_marks] have "tape (push_marks s) < length (tapes (push_marks s))"
    using cursor by simp
  from pushTape_spec [OF this p] have c1: "tape s1 < length (tapes s1)" by blast
  note sb = set_box_fields [OF c1]
  have "push s = Some (Inr (set_box s1))"
    by (simp add: push_def p res_bind_simps)
  moreover have "reduced_tape (remap (set_box s1)) (cur s) (cur (set_box s1))"
    using reduced_tape_cong [OF _ _ red, of "cur (set_box s1)"] sb by simp
  moreover have "tape_type (cur (set_box s1)) = INTERVAL" using sb ty by simp
  ultimately show ?thesis by blast
qed

lemma specialize_reduced:
  assumes cursor: "tape s < length (tapes s)"
    and wf: "list_all wf_clause (tape_t (cur s))"
    and ev: "eval N p s = Some (Inr (v, s1))"
  shows "\<exists>s'. specialize N p s = Some (Inr s') \<and> reduced_tape (remap s') (cur s) (cur s') \<and>
              tape_type (cur s') = SPECIALIZED"
proof -
  note f = eval_fields [OF ev]
  have c1: "tape s1 < length (tapes s1)" using cursor f by simp
  have w1: "list_all wf_clause (tape_t (cur s1))" using wf f by simp
  from pushTape_after_marks [OF c1 w1 frame_specialize_marks remap_from_specialize_marks,
      of SPECIALIZED]
  obtain s' where p: "pushTape SPECIALIZED (specialize_marks s1) = Some (Inr s')"
    and red: "reduced_tape (remap s') (cur s1) (cur s')"
    and ty: "tape_type (cur s') = SPECIALIZED"
    by blast
  have "specialize N p s = Some (Inr s')"
    by (simp add: specialize_def ev res_bind_simps p)
  with red ty f show ?thesis by simp
qed

lemma push_feature_reduced:
  assumes cursor: "tape s < length (tapes s)"
    and wf: "list_all wf_clause (tape_t (cur s))"
  shows "push_feature F f s = Some (Inl ChoiceUnderrun) \<or>
         (\<exists>out s'. push_feature F f s = Some (Inr (out, s')) \<and>
                    reduced_tape (remap s') (cur s) (cur s') \<and> tape_type (cur s') = FEATURE)"
proof -
  obtain m out itr where pm: "push_feature_marks F f s = (m, out, itr)"
    by (cases "push_feature_marks F f s")
  have fr: "frame s m" using frame_push_feature_marks [of s F f] by (simp add: pm)
  have rf: "remap_from (tape_t (cur s)) (remap m)"
    using remap_from_push_feature_marks [of s F f] by (simp add: pm)
  show ?thesis
  proof (cases "itr = []")
    case False
    then have "push_feature F f s = Some (Inl ChoiceUnderrun)"
      by (simp add: push_feature_def pm)
    then show ?thesis ..
  next
    case True
    from pushTape_after_marks [OF cursor wf fr rf, of FEATURE]
    obtain s' where p: "pushTape FEATURE m = Some (Inr s')"
      and red: "reduced_tape (remap s') (cur s) (cur s')"
      and ty: "tape_type (cur s') = FEATURE"
      by blast
    have "push_feature F f s = Some (Inr (out, s'))"
      by (simp add: push_feature_def pm True p res_bind_simps)
    with red ty show ?thesis by blast
  qed
qed

text \<open>
  C2. On a tape the constructor can build, with the cursor inside the stack, each of the
  three pushes returns a tape reduced from its parent: its clauses are a subsequence of
  the parent's, in order, with each operand replaced by its remap fixed point; its root
  is the remap fixed point of the parent's root; and it is no longer than the parent.
  (\<^verbatim>\<open>specialize\<close> first evaluates at the point; \<^verbatim>\<open>push(Feature)\<close> aborts instead when a
  choice of the feature is left over.)
\<close>

theorem pushed_tape_reduced:
  assumes cursor: "tape s < length (tapes s)"
    and wf: "list_all wf_clause (tape_t (cur s))"
  shows "(\<exists>s'. push s = Some (Inr s') \<and> reduced_tape (remap s') (cur s) (cur s')) \<and>
         (\<forall>v s1. eval N p s = Some (Inr (v, s1)) \<longrightarrow>
            (\<exists>s'. specialize N p s = Some (Inr s') \<and> reduced_tape (remap s') (cur s) (cur s'))) \<and>
         (push_feature F f s = Some (Inl ChoiceUnderrun) \<or>
          (\<exists>out s'. push_feature F f s = Some (Inr (out, s')) \<and>
                     reduced_tape (remap s') (cur s) (cur s')))"
proof (intro conjI allI impI)
  show "\<exists>s'. push s = Some (Inr s') \<and> reduced_tape (remap s') (cur s) (cur s')"
    using push_reduced [OF cursor wf] by blast
next
  fix v s1
  assume "eval N p s = Some (Inr (v, s1))"
  from specialize_reduced [OF cursor wf this]
  show "\<exists>s'. specialize N p s = Some (Inr s') \<and> reduced_tape (remap s') (cur s) (cur s')"
    by blast
next
  show "push_feature F f s = Some (Inl ChoiceUnderrun) \<or>
          (\<exists>out s'. push_feature F f s = Some (Inr (out, s')) \<and>
                     reduced_tape (remap s') (cur s) (cur s'))"
    using push_feature_reduced [OF cursor wf, of F f] by blast
qed

text \<open>The loop on a table whose chain from the slot is known.\<close>

lemma chase_stop: "rm r = 0 \<Longrightarrow> chase rm r = Some r"
  by (subst chase.simps) simp

lemma chase_step: "rm r \<noteq> 0 \<Longrightarrow> chase rm r = chase rm (rm r)"
  by (subst chase.simps) simp

text \<open>
  The theorem at \<open>max(x, y)\<close> over the box \<open>[5,6] \<times> [1,2] \<times> [0,0]\<close>: the pushed tape has no
  clause and its root is the slot of \<open>x\<close>.
\<close>

lemma ex_max_push: "push ex_max = Some (Inr ex_max_pushed)"
proof -
  have m: "push_marks ex_max
      = ex_max\<lparr>disabled := (\<lambda>k. k \<noteq> 3), remap := (\<lambda>_. 0)(1 := 3)\<rparr>"
    by (simp add: push_marks_def push_init_def push_clause_def push_minmax_def push_keep_def
        collapse_to_def cur_def ex_max_def ex_max_tape_def ex_max_clause_def ex_arena_def
        flt_gt_def Let_def fun_eq_iff)
  have c1: "chase ((\<lambda>_. 0)(1 := 3)) (1::nat) = Some 3"
    by (simp add: chase_step chase_stop)
  have p: "pushTape INTERVAL (ex_max\<lparr>disabled := (\<lambda>k. k \<noteq> 3), remap := (\<lambda>_. 0)(1 := 3)\<rparr>)
      = Some (Inr (ex_max\<lparr>disabled := (\<lambda>k. k \<noteq> 3), remap := (\<lambda>_. 0)(1 := 3),
                          tapes := [ex_max_tape, new_Tape\<lparr>tape_i := 3, tape_type := INTERVAL\<rparr>],
                          tape := 1\<rparr>))"
    by (simp add: pushTape_def cur_def ex_max_def ex_max_tape_def ex_max_clause_def Let_def
        chase_step chase_stop new_Tape_def)
  show ?thesis
    unfolding push_def m p res_bind_simps
    by (simp add: set_box_def cur_def ex_max_pushed_def ex_max_def ex_arena_def new_Tape_def)
qed

theorem pushed_tape_reduced_witness:
  "tape ex_max < length (tapes ex_max) \<and>
   list_all wf_clause (tape_t (cur ex_max)) \<and>
   push ex_max = Some (Inr ex_max_pushed) \<and>
   reduced_tape (remap ex_max_pushed) (cur ex_max) (cur ex_max_pushed) \<and>
   tape_t (cur ex_max_pushed) = [] \<and> tape_i (cur ex_max_pushed) = 3"
proof -
  have h1: "tape ex_max < length (tapes ex_max)" by (simp add: ex_max_def)
  have h2: "list_all wf_clause (tape_t (cur ex_max))"
    by (simp add: cur_def ex_max_def ex_max_tape_def ex_max_clause_def wf_clause_def)
  from pushed_tape_reduced [OF h1 h2, THEN conjunct1] obtain s' where
    "push ex_max = Some (Inr s')" and r: "reduced_tape (remap s') (cur ex_max) (cur s')"
    by blast
  with ex_max_push have "s' = ex_max_pushed" by simp
  with r have "reduced_tape (remap ex_max_pushed) (cur ex_max) (cur ex_max_pushed)" by simp
  moreover have "tape_t (cur ex_max_pushed) = []" "tape_i (cur ex_max_pushed) = 3"
    by (simp_all add: ex_max_pushed_def cur_def new_Tape_def)
  ultimately show ?thesis using h1 h2 ex_max_push by (intro conjI)
qed

subsection \<open>Push and pop\<close>


















subsection \<open>The value sweep recomputes the rows of the clauses\<close>



















subsection \<open>Evaluating after specialize and pop\<close>













subsection \<open>Every push keeps the evaluation order\<close>

lemma sorted_wrt_subseq: "subseq xs ys \<Longrightarrow> sorted_wrt P ys \<Longrightarrow> sorted_wrt P xs"
proof (induction rule: list_emb.induct)
  case (list_emb_Nil ys)
  then show ?case by simp
next
  case (list_emb_Cons xs ys y)
  then show ?case by simp
next
  case (list_emb_Cons2 x y xs ys)
  then show ?case using list_emb_set [of "(=)" xs ys] by auto
qed

lemma fixed_point_upwards:
  assumes up: "\<forall>r. rm r \<noteq> 0 \<longrightarrow> r < rm r" and fp: "remap_fixed_point rm x y"
  shows "x \<le> y \<and> (rm x = 0 \<longrightarrow> y = x)"
proof -
  from fp obtain n where n: "(rm ^^ n) x = y" and nz: "\<forall>k<n. rm ((rm ^^ k) x) \<noteq> 0"
    unfolding remap_fixed_point_def by blast
  have "\<forall>k<n. rm ((rm ^^ k) x) \<noteq> 0 \<Longrightarrow> x \<le> (rm ^^ n) x" for n
  proof (induction n)
    case 0
    then show ?case by simp
  next
    case (Suc n)
    then have a: "x \<le> (rm ^^ n) x" and b: "rm ((rm ^^ n) x) \<noteq> 0" by simp_all
    from up b have "(rm ^^ n) x < rm ((rm ^^ n) x)" by blast
    with a show ?case by simp
  qed
  from this [OF nz] n have le: "x \<le> y" by simp
  have "rm x = 0 \<longrightarrow> y = x"
  proof
    assume z: "rm x = 0"
    have "n = 0"
    proof (rule ccontr)
      assume "n \<noteq> 0"
      then have "0 < n" by simp
      with nz have "rm ((rm ^^ 0) x) \<noteq> 0" by blast
      with z show False by simp
    qed
    with n show "y = x" by simp
  qed
  with le show ?thesis ..
qed

lemma rewritten_wf:
  assumes up: "\<forall>r. rm r \<noteq> 0 \<longrightarrow> r < rm r" and z: "rm 0 = 0"
    and wf: "wf_clause c" and rw: "rewritten rm c c'"
  shows "wf_clause c'"
proof -
  from rw have op: "clause_op c' = clause_op c" and id: "clause_id c' = clause_id c"
    and fa: "remap_fixed_point rm (clause_a c) (clause_a c')"
    and fb: "remap_fixed_point rm (clause_b c) (clause_b c')"
    by (simp_all add: rewritten_def)
  note a = fixed_point_upwards [OF up fa]
  note b = fixed_point_upwards [OF up fb]
  from a z have a0: "clause_a c = 0 \<longrightarrow> clause_a c' = 0" by auto
  from b z have b0: "clause_b c = 0 \<longrightarrow> clause_b c' = 0" by auto
  from wf a b a0 b0 show ?thesis
    unfolding wf_clause_def op id by auto
qed

lemma reduced_tape_ordered:
  assumes rf: "remap_from (tape_t parent) rm" and ord: "ordered_tape (tape_t parent)"
    and red: "reduced_tape rm parent new"
  shows "ordered_tape (tape_t new)"
proof -
  from ord have wf: "list_all wf_clause (tape_t parent)"
    and srt: "sorted_wrt (<) (map clause_id (tape_t parent))"
    by (simp_all add: ordered_tape_def)
  from remap_from_upwards [OF rf wf] have up: "\<forall>r. rm r \<noteq> 0 \<longrightarrow> r < rm r" by blast
  have z: "rm 0 = 0"
  proof (rule ccontr)
    assume "rm 0 \<noteq> 0"
    with rf obtain c where "c \<in> set (tape_t parent)" "clause_id c = 0"
      unfolding remap_from_def by blast
    with wf show False by (auto simp: list_all_iff wf_clause_def)
  qed
  from red obtain kept where sub: "subseq kept (tape_t parent)"
    and l2: "list_all2 (rewritten rm) kept (tape_t new)"
    unfolding reduced_tape_def by blast
  from sub wf have wk: "list_all wf_clause kept"
    using list_emb_set [of "(=)" kept "tape_t parent"] by (auto simp: list_all_iff)
  from l2 have "list_all wf_clause kept \<Longrightarrow> list_all wf_clause (tape_t new)"
    by (induction rule: list_all2_induct) (auto intro: rewritten_wf [OF up z])
  from this [OF wk] have w: "list_all wf_clause (tape_t new)" .
  from l2 have "map clause_id (tape_t new) = map clause_id kept"
    by (induction rule: list_all2_induct) (simp_all add: rewritten_def)
  moreover have "sorted_wrt (<) (map clause_id kept)"
    using sorted_wrt_subseq [OF subseq_map [OF sub] srt] .
  ultimately show ?thesis using w by (simp add: ordered_tape_def)
qed

lemma pushTape_ordered:
  assumes cursor: "tape s < length (tapes s)"
    and ord: "ordered_tape (tape_t (cur s))"
    and fr: "frame s m"
    and rf: "remap_from (tape_t (cur s)) (remap m)"
    and p: "pushTape ty m = Some (Inr s')"
  shows "ordered_tape (tape_t (cur s'))"
proof -
  from frame_fields [OF fr] have f: "tapes m = tapes s" "tape m = tape s" "cur m = cur s"
    by simp_all
  have cm: "tape m < length (tapes m)" using cursor f by simp
  from pushTape_spec [OF cm p] have "reduced_tape (remap m) (cur m) (cur s')" by blast
  then have "reduced_tape (remap m) (cur s) (cur s')" by (simp add: f)
  from reduced_tape_ordered [OF rf ord this] show ?thesis .
qed

text \<open>
  So a tape in evaluation order stays so under every push: the hypothesis of the
  statements above holds of every tape of the stack when it holds of the base tape.
\<close>

lemma pushes_keep_order:
  assumes cursor: "tape s < length (tapes s)" and ord: "ordered_tape (tape_t (cur s))"
  shows "(\<forall>s'. push s = Some (Inr s') \<longrightarrow> ordered_tape (tape_t (cur s'))) \<and>
         (\<forall>s'. specialize N p s = Some (Inr s') \<longrightarrow> ordered_tape (tape_t (cur s'))) \<and>
         (\<forall>out s'. push_feature F f s = Some (Inr (out, s')) \<longrightarrow> ordered_tape (tape_t (cur s')))"
proof (intro conjI allI impI)
  fix s'
  assume p: "push s = Some (Inr s')"
  let ?m = "push_marks s"
  note fm = frame_fields [OF frame_push_marks, of s]
  have cm: "tape ?m < length (tapes ?m)" using cursor fm by simp
  obtain s0 where p0: "pushTape INTERVAL ?m = Some (Inr s0)" and s': "s' = set_box s0"
  proof (cases "pushTape INTERVAL ?m")
    case None
    with p show ?thesis by (simp add: push_def res_bind_simps)
  next
    case (Some r)
    show ?thesis
    proof (cases r)
      case (Inl e)
      with Some p show ?thesis by (simp add: push_def res_bind_simps)
    next
      case (Inr s0)
      with Some p that show ?thesis by (simp add: push_def res_bind_simps)
    qed
  qed
  from pushTape_spec [OF cm p0] have c0: "tape s0 < length (tapes s0)" by blast
  from pushTape_ordered [OF cursor ord frame_push_marks remap_from_push_marks p0]
  show "ordered_tape (tape_t (cur s'))"
    using set_box_fields [OF c0] by (simp add: s')
next
  fix s'
  assume p: "specialize N p s = Some (Inr s')"
  obtain v s0 where ev: "eval N p s = Some (Inr (v, s0))"
    and p0: "pushTape SPECIALIZED (specialize_marks s0) = Some (Inr s')"
  proof (cases "eval N p s")
    case None
    with p show ?thesis by (simp add: specialize_def res_bind_simps)
  next
    case (Some r)
    show ?thesis
    proof (cases r)
      case (Inl e)
      with Some p show ?thesis by (simp add: specialize_def res_bind_simps)
    next
      case (Inr y)
      obtain v s0 where y: "y = (v, s0)" by (cases y)
      from Some Inr y p that show ?thesis by (simp add: specialize_def res_bind_simps)
    qed
  qed
  note f0 = eval_fields [OF ev]
  have c0: "tape s0 < length (tapes s0)" using cursor f0 by simp
  have o0: "ordered_tape (tape_t (cur s0))" using ord f0 by simp
  from pushTape_ordered [OF c0 o0 frame_specialize_marks remap_from_specialize_marks p0]
  show "ordered_tape (tape_t (cur s'))" .
next
  fix out s'
  assume p: "push_feature F f s = Some (Inr (out, s'))"
  obtain m out' itr where pm: "push_feature_marks F f s = (m, out', itr)"
    by (cases "push_feature_marks F f s")
  have fr: "frame s m" using frame_push_feature_marks [of s F f] by (simp add: pm)
  have rf: "remap_from (tape_t (cur s)) (remap m)"
    using remap_from_push_feature_marks [of s F f] by (simp add: pm)
  have p0: "pushTape FEATURE m = Some (Inr s')"
  proof (cases "itr = []")
    case False
    with p show ?thesis by (simp add: push_feature_def pm)
  next
    case True
    note e = True
    show ?thesis
    proof (cases "pushTape FEATURE m")
      case None
      with p e show ?thesis by (simp add: push_feature_def pm res_bind_simps)
    next
      case (Some r)
      with p e show ?thesis by (cases r) (simp_all add: push_feature_def pm res_bind_simps)
    qed
  qed
  from pushTape_ordered [OF cursor ord fr rf p0]
  show "ordered_tape (tape_t (cur s'))" .
qed






subsection \<open>featuresAt and the cursor\<close>

lemma derivs_kernel_fields:
  assumes "derivs_kernel N n s = Some (Inr s')"
  shows "tapes s' = tapes s \<and> tape s' = tape s"
proof (cases "values_kernel N n s")
  case None
  with assms show ?thesis by (simp add: derivs_kernel_def res_bind_simps)
next
  case (Some r)
  show ?thesis
  proof (cases r)
    case (Inl e)
    with Some assms show ?thesis by (simp add: derivs_kernel_def res_bind_simps)
  next
    case (Inr s1)
    note v = values_kernel_fields [of N n s s1]
    show ?thesis
    proof (cases "run_clauses (derivs_clause N n) (rev (tape_t (cur s1))) (result s1)")
      case None
      with Some Inr assms show ?thesis by (simp add: derivs_kernel_def res_bind_simps)
    next
      case (Some r2)
      with \<open>values_kernel N n s = Some r\<close> Inr assms v show ?thesis
        by (cases r2) (auto simp: derivs_kernel_def res_bind_simps)
    qed
  qed
qed

lemma pushTape_cursor:
  assumes cursor: "tape s < length (tapes s)" and fr: "frame s m"
    and p: "pushTape ty m = Some (Inr s1)"
  shows "tape s1 = Suc (tape s) \<and> tape s1 < length (tapes s1) \<and>
         take (Suc (tape s)) (tapes s1) = take (Suc (tape s)) (tapes s)"
proof -
  note fm = frame_fields [OF fr]
  have cm: "tape m < length (tapes m)" using cursor fm by simp
  from pushTape_spec [OF cm p] fm show ?thesis by simp
qed

lemma push_feature_cursor:
  assumes cursor: "tape s < length (tapes s)"
    and p: "push_feature F f s = Some (Inr (out, s1))"
  shows "tape s1 = Suc (tape s) \<and> tape s1 < length (tapes s1) \<and>
         take (Suc (tape s)) (tapes s1) = take (Suc (tape s)) (tapes s)"
proof -
  obtain m out' itr where pm: "push_feature_marks F f s = (m, out', itr)"
    by (cases "push_feature_marks F f s")
  have fr: "frame s m" using frame_push_feature_marks [of s F f] by (simp add: pm)
  have p0: "pushTape FEATURE m = Some (Inr s1)"
  proof (cases "itr = []")
    case False
    with p show ?thesis by (simp add: push_feature_def pm)
  next
    case True
    note e = True
    show ?thesis
    proof (cases "pushTape FEATURE m")
      case None
      with p e show ?thesis by (simp add: push_feature_def pm res_bind_simps)
    next
      case (Some r)
      with p e show ?thesis by (cases r) (simp_all add: push_feature_def pm res_bind_simps)
    qed
  qed
  from pushTape_cursor [OF cursor fr p0] show ?thesis .
qed

lemma specialize_cursor:
  assumes cursor: "tape s < length (tapes s)" and p: "specialize N p s = Some (Inr s1)"
  shows "tape s1 = Suc (tape s) \<and> tape s1 < length (tapes s1) \<and>
         take (Suc (tape s)) (tapes s1) = take (Suc (tape s)) (tapes s)"
proof -
  obtain v s0 where ev: "eval N p s = Some (Inr (v, s0))"
    and p0: "pushTape SPECIALIZED (specialize_marks s0) = Some (Inr s1)"
  proof (cases "eval N p s")
    case None
    with p show ?thesis by (simp add: specialize_def res_bind_simps)
  next
    case (Some r)
    show ?thesis
    proof (cases r)
      case (Inl e)
      with Some p show ?thesis by (simp add: specialize_def res_bind_simps)
    next
      case (Inr y)
      obtain v s0 where y: "y = (v, s0)" by (cases y)
      from Some Inr y p that show ?thesis by (simp add: specialize_def res_bind_simps)
    qed
  qed
  note f0 = eval_fields [OF ev]
  have c0: "tape s0 < length (tapes s0)" using cursor f0 by simp
  from pushTape_cursor [OF c0 frame_specialize_marks p0] f0 show ?thesis by simp
qed

text \<open>
  The worklist loop: every iteration pushes a feature tape above the cursor and pops it,
  so the loop returns with the cursor, and the tapes up to it, as it found them.
\<close>

lemma featuresAt_loop_cursor:
  assumes r: "featuresAt_loop N F todo fin seen s = Some y"
  shows "tape s < length (tapes s) \<longrightarrow>
         (\<forall>fin' s'. y = Inr (fin', s') \<longrightarrow>
            tape s' = tape s \<and>
            take (Suc (tape s)) (tapes s') = take (Suc (tape s)) (tapes s) \<and>
            tape s' < length (tapes s'))"
proof (rule featuresAt_loop.raw_induct [where P = "\<lambda>N F todo fin seen s y.
    tape s < length (tapes s) \<longrightarrow>
    (\<forall>fin' s'. y = Inr (fin', s') \<longrightarrow>
       tape s' = tape s \<and>
            take (Suc (tape s)) (tapes s') = take (Suc (tape s)) (tapes s) \<and>
            tape s' < length (tapes s'))",
    OF _ r])
  fix loop :: "float_ops \<Rightarrow> 'a feature_ops \<Rightarrow> 'a list \<Rightarrow> 'a list \<Rightarrow> Choice list set \<Rightarrow> Evaluator
      \<Rightarrow> (error + 'a list \<times> Evaluator) option"
    and N :: float_ops and F :: "'a feature_ops" and todo fin :: "'a list"
    and seen :: "Choice list set" and s :: Evaluator and y :: "error + 'a list \<times> Evaluator"
  assume IH: "\<And>N F todo fin seen s y. loop N F todo fin seen s = Some y \<Longrightarrow>
      tape s < length (tapes s) \<longrightarrow>
      (\<forall>fin' s'. y = Inr (fin', s') \<longrightarrow>
         tape s' = tape s \<and>
            take (Suc (tape s)) (tapes s') = take (Suc (tape s)) (tapes s) \<and>
            tape s' < length (tapes s'))"
  assume body: "(case todo of
        [] \<Rightarrow> Some (Inr (fin, s))
      | f # todo1 \<Rightarrow>
          (case push_feature F f s of
             None \<Rightarrow> None
           | Some (Inl e) \<Rightarrow> Some (Inl e)
           | Some (Inr (f', s1)) \<Rightarrow>
               (case derivs_kernel N 1 s1 of
                  None \<Rightarrow> None
                | Some (Inl e) \<Rightarrow> Some (Inl e)
                | Some (Inr s2) \<Rightarrow>
                    (let sc = featuresAt_scan F (result s2) f' (rev (tape_t (cur s2))) todo1 False;
                         f2 = feature_set_deriv F
                                (res_dx (result s2) (tape_i (cur s2)) 0,
                                 res_dy (result s2) (tape_i (cur s2)) 0,
                                 res_dz (result s2) (tape_i (cur s2)) 0) f';
                         fresh = (\<not> snd sc \<and> feature_getChoices F f2 \<notin> seen);
                         fin2 = (if fresh then fin @ [f2] else fin);
                         seen2 = (if fresh then insert (feature_getChoices F f2) seen else seen)
                     in case pop s2 of
                          None \<Rightarrow> None
                        | Some (Inl e) \<Rightarrow> Some (Inl e)
                        | Some (Inr s3) \<Rightarrow> loop N F (fst sc) fin2 seen2 s3)))) = Some y"
  show "tape s < length (tapes s) \<longrightarrow>
      (\<forall>fin' s'. y = Inr (fin', s') \<longrightarrow>
         tape s' = tape s \<and>
            take (Suc (tape s)) (tapes s') = take (Suc (tape s)) (tapes s) \<and>
            tape s' < length (tapes s'))"
  proof (intro impI allI)
    fix fin' s'
    assume cursor: "tape s < length (tapes s)" and y: "y = Inr (fin', s')"
    show "tape s' = tape s \<and>
            take (Suc (tape s)) (tapes s') = take (Suc (tape s)) (tapes s) \<and>
            tape s' < length (tapes s')"
    proof (cases todo)
      case Nil
      with body y cursor show ?thesis by simp
    next
      case (Cons f todo1)
      note todo = Cons
      show ?thesis
      proof (cases "push_feature F f s")
        case None
        with body todo show ?thesis by simp
      next
        case (Some r1)
        note pf = Some
        show ?thesis
        proof (cases r1)
          case (Inl e)
          with body todo pf y show ?thesis by simp
        next
          case (Inr fs1)
          obtain f' s1 where fs1: "fs1 = (f', s1)" by (cases fs1)
          from pf Inr fs1 have p1: "push_feature F f s = Some (Inr (f', s1))" by simp
          note c1 = push_feature_cursor [OF cursor p1]
          show ?thesis
          proof (cases "derivs_kernel N 1 s1")
            case None
            with body todo p1 show ?thesis by simp
          next
            case (Some r2)
            note dk = Some
            show ?thesis
            proof (cases r2)
              case (Inl e)
              with body todo p1 dk y show ?thesis by simp
            next
              case (Inr s2)
              from dk Inr have d2: "derivs_kernel N 1 s1 = Some (Inr s2)" by simp
              note f2 = derivs_kernel_fields [OF d2]
              have pop2: "pop s2 = Some (Inr (s2\<lparr>tape := tape s\<rparr>))"
                using c1 f2 by (simp add: pop_def)
              let ?s3 = "s2\<lparr>tape := tape s\<rparr>"
              from body obtain todo2 fin2 seen2 where
                rec: "loop N F todo2 fin2 seen2 ?s3 = Some y"
                unfolding todo list.case p1 option.case sum.case prod.case d2 Let_def pop2
                by blast
              from c1 f2 have nth: "take (Suc (tape s)) (tapes ?s3) = take (Suc (tape s)) (tapes s)"
                by simp
              have c3: "tape ?s3 < length (tapes ?s3)" using c1 f2 by simp
              from IH [OF rec] c3 y have
                "tape s' = tape ?s3 \<and>
                 take (Suc (tape ?s3)) (tapes s') = take (Suc (tape ?s3)) (tapes ?s3) \<and>
                 tape s' < length (tapes s')"
                by blast
              with nth show ?thesis by simp
            qed
          qed
        qed
      qed
    qed
  qed
qed

text \<open>
  C10. When \<^verbatim>\<open>featuresAt(p)\<close> returns, the cursor is where it was before the call, and the
  tape under it is the one that was there: the specialization push and every feature push
  have been popped.
\<close>

theorem featuresAt_cursor:
  assumes cursor: "tape s < length (tapes s)"
    and r: "featuresAt N F p s = Some (Inr (fs, s'))"
  shows "tape s' = tape s \<and> cur s' = cur s"
proof -
  obtain s1 where sp: "specialize N p s = Some (Inr s1)"
    and r1: "res_bind (featuresAt_loop N F [feature_new F] [] {} s1)
          (\<lambda>(fin, s2). res_bind (pop s2)
             (\<lambda>s3. if fin = [] then Some (Inl AssertionFailed) else Some (Inr (fin, s3))))
        = Some (Inr (fs, s'))"
  proof (cases "specialize N p s")
    case None
    with r show ?thesis by (simp add: featuresAt_def res_bind_simps)
  next
    case (Some q)
    with r that show ?thesis by (cases q) (simp_all add: featuresAt_def res_bind_simps)
  qed
  note c1 = specialize_cursor [OF cursor sp]
  obtain fin s2 where lp: "featuresAt_loop N F [feature_new F] [] {} s1 = Some (Inr (fin, s2))"
    and r2: "res_bind (pop s2)
             (\<lambda>s3. if fin = [] then Some (Inl AssertionFailed) else Some (Inr (fin, s3)))
        = Some (Inr (fs, s'))"
  proof (cases "featuresAt_loop N F [feature_new F] [] {} s1")
    case None
    with r1 show ?thesis by (simp add: res_bind_simps)
  next
    case (Some q)
    show ?thesis
    proof (cases q)
      case (Inl e)
      with Some r1 show ?thesis by (simp add: res_bind_simps)
    next
      case (Inr z)
      obtain fin s2 where z: "z = (fin, s2)" by (cases z)
      from Some Inr z r1 that show ?thesis by (simp add: res_bind_simps)
    qed
  qed
  from featuresAt_loop_cursor [OF lp] c1 have l2: "tape s2 = tape s1"
    "take (Suc (tape s1)) (tapes s2) = take (Suc (tape s1)) (tapes s1)"
    by blast+
  have t2: "tape s2 = Suc (tape s)" using l2 c1 by simp
  have pop2: "pop s2 = Some (Inr (s2\<lparr>tape := tape s\<rparr>))" by (simp add: pop_def t2)
  from r2 have s': "s' = s2\<lparr>tape := tape s\<rparr>"
    unfolding pop2 res_bind_simps by (simp split: if_splits)
  have "tape s' = tape s" by (simp add: s')
  moreover have "cur s' = cur s"
  proof -
    have "take (Suc (tape s)) (take (Suc (tape s1)) (tapes s2))
        = take (Suc (tape s)) (take (Suc (tape s1)) (tapes s1))"
      by (simp only: l2)
    then have "take (Suc (tape s)) (tapes s2) = take (Suc (tape s)) (tapes s1)"
      using c1 by (simp add: min_def)
    with c1 have "take (Suc (tape s)) (tapes s2) = take (Suc (tape s)) (tapes s)" by simp
    from nth_take_same [OF this] show ?thesis by (simp add: s' cur_def)
  qed
  ultimately show ?thesis by simp
qed

text \<open>
  The theorem at \<open>max(x, y)\<close> and the origin, where both branches tie: \<^verbatim>\<open>featuresAt\<close>
  pushes and pops three feature tapes and returns the two features of the spec's
  scenario, with gradients (1, 0, 0) and (0, 1, 0).
\<close>

lemma ex_max_features:
  "\<exists>s'. featuresAt ideal_ops plain_features (Fin 0, Fin 0, Fin 0) ex_max
     = Some (Inr ([([\<lparr>choice_id = 1, choice_choice = 0\<rparr>], (Fin 1, Fin 0, Fin 0)),
                   ([\<lparr>choice_id = 1, choice_choice = 1\<rparr>], (Fin 0, Fin 1, Fin 0))], s'))"
  by (simp add: featuresAt_def specialize_def eval_def values_kernel_def values_clause_def
      derivs_kernel_def derivs_clause_def put_dx_def put_dy_def put_dz_def set_row_def
      specialize_marks_def specialize_clause_def specialize_minmax_def push_init_def
      push_keep_def collapse_to_def pushTape_def pop_def push_feature_def push_feature_marks_def
      push_feature_clause_def featuresAt_loop.simps chase_step chase_stop
      res_bind_def set_point_def cur_def root_values_def
      ex_max_def ex_max_tape_def ex_max_clause_def ex_arena_def new_Tape_def
      ideal_ops_def plain_features_def lift1_def lift2_def
      flt_gt_def flt_eq_def Let_def)

theorem featuresAt_cursor_witness:
  "tape ex_max < length (tapes ex_max) \<and>
   (\<exists>s'. featuresAt ideal_ops plain_features (Fin 0, Fin 0, Fin 0) ex_max
            = Some (Inr ([([\<lparr>choice_id = 1, choice_choice = 0\<rparr>], (Fin 1, Fin 0, Fin 0)),
                          ([\<lparr>choice_id = 1, choice_choice = 1\<rparr>], (Fin 0, Fin 1, Fin 0))], s')) \<and>
          tape s' = tape ex_max \<and> cur s' = cur ex_max)"
proof -
  have h: "tape ex_max < length (tapes ex_max)" by (simp add: ex_max_def)
  from ex_max_features obtain s' where
    r: "featuresAt ideal_ops plain_features (Fin 0, Fin 0, Fin 0) ex_max
            = Some (Inr ([([\<lparr>choice_id = 1, choice_choice = 0\<rparr>], (Fin 1, Fin 0, Fin 0)),
                          ([\<lparr>choice_id = 1, choice_choice = 1\<rparr>], (Fin 0, Fin 1, Fin 0))], s'))"
    ..
  from featuresAt_cursor [OF h r] r h show ?thesis by blast
qed

subsection \<open>The features featuresAt returns\<close>

text \<open>The kernels abort on a bad opcode only.\<close>

lemma values_clause_error: "values_clause N n c m = Some (Inl e) \<Longrightarrow> e = BadOpcode"
  by (cases "clause_op c") (auto simp: values_clause_def Let_def split: option.splits)

lemma derivs_clause_error: "derivs_clause N n c r = Some (Inl e) \<Longrightarrow> e = BadOpcode"
  by (cases "clause_op c") (auto simp: derivs_clause_def Let_def)

lemma run_clauses_error:
  assumes step: "\<And>c r e. step c r = Some (Inl e) \<Longrightarrow> e = BadOpcode"
  shows "run_clauses step cs r = Some (Inl e) \<Longrightarrow> e = BadOpcode"
proof (induction cs arbitrary: r)
  case Nil
  then show ?case by simp
next
  case (Cons c cs)
  show ?case
  proof (cases "step c r")
    case None
    with Cons.prems show ?thesis by (simp add: res_bind_simps)
  next
    case (Some q)
    show ?thesis
    proof (cases q)
      case (Inl e')
      with Some Cons.prems step [of c r e'] show ?thesis by (simp add: res_bind_simps)
    next
      case (Inr r')
      with Some Cons.prems Cons.IH [of r'] show ?thesis by (simp add: res_bind_simps)
    qed
  qed
qed

lemma run_values_error:
  assumes "run_clauses (values_clause N n) cs r = Some (Inl e)"
  shows "e = BadOpcode"
  by (rule run_clauses_error [of "values_clause N n" cs r e]) (erule values_clause_error, rule assms)

lemma run_derivs_error:
  assumes "run_clauses (derivs_clause N n) cs r = Some (Inl e)"
  shows "e = BadOpcode"
  by (rule run_clauses_error [of "derivs_clause N n" cs r e]) (erule derivs_clause_error, rule assms)

lemma values_kernel_error:
  assumes "values_kernel N n s = Some (Inl e)"
  shows "e = BadOpcode"
proof (cases "run_clauses (values_clause N n) (rev (tape_t (cur s))) (res_f (result s))")
  case None
  with assms show ?thesis by (simp add: values_kernel_def res_bind_simps)
next
  case (Some q)
  show ?thesis
  proof (cases q)
    case (Inl e')
    with Some assms have "e' = e" by (simp add: values_kernel_def res_bind_simps)
    with Some Inl run_values_error [of N n "rev (tape_t (cur s))" "res_f (result s)" e]
    show ?thesis by simp
  next
    case (Inr m)
    with Some assms show ?thesis by (simp add: values_kernel_def res_bind_simps)
  qed
qed

lemma derivs_kernel_error:
  assumes "derivs_kernel N n s = Some (Inl e)"
  shows "e = BadOpcode"
proof (cases "values_kernel N n s")
  case None
  with assms show ?thesis by (simp add: derivs_kernel_def res_bind_simps)
next
  case (Some q)
  note vk = Some
  show ?thesis
  proof (cases q)
    case (Inl e')
    with vk assms have "e' = e" by (simp add: derivs_kernel_def res_bind_simps)
    with vk Inl values_kernel_error show ?thesis by blast
  next
    case (Inr s1)
    note q = Inr
    show ?thesis
    proof (cases "run_clauses (derivs_clause N n) (rev (tape_t (cur s1))) (result s1)")
      case None
      with vk q assms show ?thesis by (simp add: derivs_kernel_def res_bind_simps)
    next
      case (Some q2)
      show ?thesis
      proof (cases q2)
        case (Inl e')
        with Some vk q assms have "e' = e" by (simp add: derivs_kernel_def res_bind_simps)
        with Some Inl run_derivs_error [of N n "rev (tape_t (cur s1))" "result s1" e]
        show ?thesis by simp
      next
        case (Inr r)
        with Some vk q assms show ?thesis by (simp add: derivs_kernel_def res_bind_simps)
      qed
    qed
  qed
qed

lemma eval_error: "eval N p s = Some (Inl e) \<Longrightarrow> e = BadOpcode"
proof -
  assume a: "eval N p s = Some (Inl e)"
  show ?thesis
  proof (cases "values_kernel N 1 (set_point p 0 s)")
    case None
    with a show ?thesis by (simp add: eval_def res_bind_simps)
  next
    case (Some q)
    with a values_kernel_error [of N 1 "set_point p 0 s" e] show ?thesis
      by (cases q) (simp_all add: eval_def res_bind_simps)
  qed
qed

lemma push_feature_error:
  assumes cursor: "tape s < length (tapes s)" and p: "push_feature F f s = Some (Inl e)"
  shows "e = ChoiceUnderrun"
proof -
  obtain m out itr where pm: "push_feature_marks F f s = (m, out, itr)"
    by (cases "push_feature_marks F f s")
  have fr: "frame s m" using frame_push_feature_marks [of s F f] by (simp add: pm)
  have cm: "tape m < length (tapes m)" using cursor frame_fields [OF fr] by simp
  show ?thesis
  proof (cases "itr = []")
    case False
    with p show ?thesis by (simp add: push_feature_def pm)
  next
    case True
    note e = True
    show ?thesis
    proof (cases "pushTape FEATURE m")
      case None
      with p e show ?thesis by (simp add: push_feature_def pm res_bind_simps)
    next
      case (Some q)
      with p e pushTape_never_aborts [OF cm, of FEATURE e] show ?thesis
        by (cases q) (auto simp: push_feature_def pm res_bind_simps)
    qed
  qed
qed

lemma specialize_error:
  assumes cursor: "tape s < length (tapes s)" and p: "specialize N p s = Some (Inl e)"
  shows "e = BadOpcode"
proof (cases "eval N p s")
  case None
  with p show ?thesis by (simp add: specialize_def res_bind_simps)
next
  case (Some q)
  show ?thesis
  proof (cases q)
    case (Inl e')
    with Some p eval_error [of N p s e'] show ?thesis by (simp add: specialize_def res_bind_simps)
  next
    case (Inr y)
    obtain v s0 where y: "y = (v, s0)" by (cases y)
    from Some Inr y have ev: "eval N p s = Some (Inr (v, s0))" by simp
    have "tape (specialize_marks s0) < length (tapes (specialize_marks s0))"
      using cursor eval_fields [OF ev] frame_fields [OF frame_specialize_marks, of s0] by simp
    from pushTape_never_aborts [OF this, of SPECIALIZED e] p ev show ?thesis
      by (simp add: specialize_def res_bind_simps)
  qed
qed

text \<open>The scan raises its flag only when it has put a feature on the worklist.\<close>

lemma featuresAt_scan_flag:
  "(ambiguous \<longrightarrow> todo \<noteq> []) \<Longrightarrow>
     snd (featuresAt_scan F r f' cs todo ambiguous) \<longrightarrow>
     fst (featuresAt_scan F r f' cs todo ambiguous) \<noteq> []"
proof (induction cs arbitrary: todo ambiguous)
  case Nil
  then show ?case by simp
next
  case (Cons c cs)
  show ?case
  proof (cases ambiguous)
    case True
    with Cons.prems show ?thesis by simp
  next
    case False
    note na = False
    show ?thesis
    proof (cases "clause_op c = OP_MIN \<or> clause_op c = OP_MAX")
      case False
      with na Cons.IH [of ambiguous todo] Cons.prems show ?thesis by simp
    next
      case True
      note mm = True
      show ?thesis
      proof (cases "clause_a c = clause_b c")
        case True
        with na mm Cons.IH [of True "todo @ [feature_push_choice F \<lparr>choice_id = clause_id c, choice_choice = 0\<rparr> f']"]
        show ?thesis by simp
      next
        case False
        note ab = False
        show ?thesis
        proof (cases "flt_eq (res_f r (clause_a c) 0) (res_f r (clause_b c) 0)")
          case False
          with na mm ab Cons.IH [of ambiguous todo] Cons.prems show ?thesis by simp
        next
          case True
          let ?rhs = "(res_dx r (clause_b c) 0, res_dy r (clause_b c) 0, res_dz r (clause_b c) 0)"
          let ?lhs = "(res_dx r (clause_a c) 0, res_dy r (clause_a c) 0, res_dz r (clause_a c) 0)"
          let ?eps = "if clause_op c = OP_MIN then vec_sub F ?rhs ?lhs else vec_sub F ?lhs ?rhs"
          let ?fa = "feature_push F ?eps \<lparr>choice_id = clause_id c, choice_choice = 0\<rparr> f'"
          let ?st1 = "if fst ?fa then (todo @ [snd ?fa], True) else (todo, ambiguous)"
          let ?fb = "feature_push F (vec_neg F ?eps) \<lparr>choice_id = clause_id c, choice_choice = 1\<rparr> f'"
          let ?st2 = "if fst ?fb then (fst ?st1 @ [snd ?fb], True) else ?st1"
          have e: "featuresAt_scan F r f' (c # cs) todo ambiguous
              = featuresAt_scan F r f' cs (fst ?st2) (snd ?st2)"
            using na mm ab True by (simp add: Let_def)
          have "snd ?st2 \<longrightarrow> fst ?st2 \<noteq> []" using na by simp
          from Cons.IH [OF this] show ?thesis unfolding e .
        qed
      qed
    qed
  qed
qed

text \<open>
  The worklist loop, started with a worklist or a finished feature, and with \<open>seen\<close> the
  choice lists of the finished features: it never fails an assertion, and the features
  it returns are not none and have pairwise distinct choice lists.
\<close>

lemma featuresAt_loop_features:
  assumes r: "featuresAt_loop N F todo fin seen s = Some y"
  shows "tape s < length (tapes s) \<and> seen = feature_getChoices F ` set fin \<and>
         distinct (map (feature_getChoices F) fin) \<and> (todo \<noteq> [] \<or> fin \<noteq> []) \<longrightarrow>
         (\<forall>e. y = Inl e \<longrightarrow> e = BadOpcode \<or> e = ChoiceUnderrun) \<and>
         (\<forall>fin' s'. y = Inr (fin', s') \<longrightarrow>
            fin' \<noteq> [] \<and> distinct (map (feature_getChoices F) fin'))"
proof (rule featuresAt_loop.raw_induct [where P = "\<lambda>N F todo fin seen s y.
    tape s < length (tapes s) \<and> seen = feature_getChoices F ` set fin \<and>
    distinct (map (feature_getChoices F) fin) \<and> (todo \<noteq> [] \<or> fin \<noteq> []) \<longrightarrow>
    (\<forall>e. y = Inl e \<longrightarrow> e = BadOpcode \<or> e = ChoiceUnderrun) \<and>
    (\<forall>fin' s'. y = Inr (fin', s') \<longrightarrow>
       fin' \<noteq> [] \<and> distinct (map (feature_getChoices F) fin'))",
    OF _ r])
  fix loop :: "float_ops \<Rightarrow> 'a feature_ops \<Rightarrow> 'a list \<Rightarrow> 'a list \<Rightarrow> Choice list set \<Rightarrow> Evaluator
      \<Rightarrow> (error + 'a list \<times> Evaluator) option"
    and N :: float_ops and F :: "'a feature_ops" and todo fin :: "'a list"
    and seen :: "Choice list set" and s :: Evaluator and y :: "error + 'a list \<times> Evaluator"
  assume IH: "\<And>N F todo fin seen s y. loop N F todo fin seen s = Some y \<Longrightarrow>
      tape s < length (tapes s) \<and> seen = feature_getChoices F ` set fin \<and>
      distinct (map (feature_getChoices F) fin) \<and> (todo \<noteq> [] \<or> fin \<noteq> []) \<longrightarrow>
      (\<forall>e. y = Inl e \<longrightarrow> e = BadOpcode \<or> e = ChoiceUnderrun) \<and>
      (\<forall>fin' s'. y = Inr (fin', s') \<longrightarrow>
         fin' \<noteq> [] \<and> distinct (map (feature_getChoices F) fin'))"
  assume body: "(case todo of
        [] \<Rightarrow> Some (Inr (fin, s))
      | f # todo1 \<Rightarrow>
          (case push_feature F f s of
             None \<Rightarrow> None
           | Some (Inl e) \<Rightarrow> Some (Inl e)
           | Some (Inr (f', s1)) \<Rightarrow>
               (case derivs_kernel N 1 s1 of
                  None \<Rightarrow> None
                | Some (Inl e) \<Rightarrow> Some (Inl e)
                | Some (Inr s2) \<Rightarrow>
                    (let sc = featuresAt_scan F (result s2) f' (rev (tape_t (cur s2))) todo1 False;
                         f2 = feature_set_deriv F
                                (res_dx (result s2) (tape_i (cur s2)) 0,
                                 res_dy (result s2) (tape_i (cur s2)) 0,
                                 res_dz (result s2) (tape_i (cur s2)) 0) f';
                         fresh = (\<not> snd sc \<and> feature_getChoices F f2 \<notin> seen);
                         fin2 = (if fresh then fin @ [f2] else fin);
                         seen2 = (if fresh then insert (feature_getChoices F f2) seen else seen)
                     in case pop s2 of
                          None \<Rightarrow> None
                        | Some (Inl e) \<Rightarrow> Some (Inl e)
                        | Some (Inr s3) \<Rightarrow> loop N F (fst sc) fin2 seen2 s3)))) = Some y"
  show "tape s < length (tapes s) \<and> seen = feature_getChoices F ` set fin \<and>
      distinct (map (feature_getChoices F) fin) \<and> (todo \<noteq> [] \<or> fin \<noteq> []) \<longrightarrow>
      (\<forall>e. y = Inl e \<longrightarrow> e = BadOpcode \<or> e = ChoiceUnderrun) \<and>
      (\<forall>fin' s'. y = Inr (fin', s') \<longrightarrow>
         fin' \<noteq> [] \<and> distinct (map (feature_getChoices F) fin'))"
  proof (intro impI)
    assume inv: "tape s < length (tapes s) \<and> seen = feature_getChoices F ` set fin \<and>
      distinct (map (feature_getChoices F) fin) \<and> (todo \<noteq> [] \<or> fin \<noteq> [])"
    then have cursor: "tape s < length (tapes s)"
      and seen: "seen = feature_getChoices F ` set fin"
      and dist: "distinct (map (feature_getChoices F) fin)"
      and some: "todo \<noteq> [] \<or> fin \<noteq> []"
      by simp_all
    show "(\<forall>e. y = Inl e \<longrightarrow> e = BadOpcode \<or> e = ChoiceUnderrun) \<and>
      (\<forall>fin' s'. y = Inr (fin', s') \<longrightarrow>
         fin' \<noteq> [] \<and> distinct (map (feature_getChoices F) fin'))"
    proof (cases todo)
      case Nil
      with body some dist show ?thesis by auto
    next
      case (Cons f todo1)
      note todo = Cons
      show ?thesis
      proof (cases "push_feature F f s")
        case None
        with body todo show ?thesis by simp
      next
        case (Some r1)
        note pf = Some
        show ?thesis
        proof (cases r1)
          case (Inl e)
          with pf have "push_feature F f s = Some (Inl e)" by simp
          from push_feature_error [OF cursor this] have "e = ChoiceUnderrun" .
          with body todo pf Inl show ?thesis by auto
        next
          case (Inr fs1)
          obtain f' s1 where fs1: "fs1 = (f', s1)" by (cases fs1)
          from pf Inr fs1 have p1: "push_feature F f s = Some (Inr (f', s1))" by simp
          note c1 = push_feature_cursor [OF cursor p1]
          show ?thesis
          proof (cases "derivs_kernel N 1 s1")
            case None
            with body todo p1 show ?thesis by simp
          next
            case (Some r2)
            note dk = Some
            show ?thesis
            proof (cases r2)
              case (Inl e)
              with dk have "derivs_kernel N 1 s1 = Some (Inl e)" by simp
              from derivs_kernel_error [OF this] have "e = BadOpcode" .
              with body todo p1 dk Inl show ?thesis by auto
            next
              case (Inr s2)
              from dk Inr have d2: "derivs_kernel N 1 s1 = Some (Inr s2)" by simp
              note f2 = derivs_kernel_fields [OF d2]
              have pop2: "pop s2 = Some (Inr (s2\<lparr>tape := tape s\<rparr>))"
                using c1 f2 by (simp add: pop_def)
              let ?s3 = "s2\<lparr>tape := tape s\<rparr>"
              let ?sc = "featuresAt_scan F (result s2) f' (rev (tape_t (cur s2))) todo1 False"
              let ?f2 = "feature_set_deriv F
                                (res_dx (result s2) (tape_i (cur s2)) 0,
                                 res_dy (result s2) (tape_i (cur s2)) 0,
                                 res_dz (result s2) (tape_i (cur s2)) 0) f'"
              let ?fresh = "\<not> snd ?sc \<and> feature_getChoices F ?f2 \<notin> seen"
              let ?fin2 = "if ?fresh then fin @ [?f2] else fin"
              let ?seen2 = "if ?fresh then insert (feature_getChoices F ?f2) seen else seen"
              from body have rec: "loop N F (fst ?sc) ?fin2 ?seen2 ?s3 = Some y"
                unfolding todo list.case p1 option.case sum.case prod.case d2 Let_def pop2 .
              have c3: "tape ?s3 < length (tapes ?s3)" using c1 f2 by simp
              have s2: "?seen2 = feature_getChoices F ` set ?fin2"
                using seen by auto
              have d2': "distinct (map (feature_getChoices F) ?fin2)"
                using dist seen by auto
              have flag: "snd ?sc \<longrightarrow> fst ?sc \<noteq> []"
                by (rule featuresAt_scan_flag) simp
              have some2: "fst ?sc \<noteq> [] \<or> ?fin2 \<noteq> []"
              proof (cases "snd ?sc")
                case True
                with flag show ?thesis by simp
              next
                case False
                show ?thesis
                proof (cases "feature_getChoices F ?f2 \<in> seen")
                  case True
                  with seen have "fin \<noteq> []" by auto
                  then show ?thesis by simp
                next
                  case False
                  with \<open>\<not> snd ?sc\<close> show ?thesis by simp
                qed
              qed
              from IH [OF rec] c3 s2 d2' some2 show ?thesis by blast
            qed
          qed
        qed
      qed
    qed
  qed
qed

text \<open>
  With the cursor inside the stack, \<^verbatim>\<open>featuresAt(p)\<close> never fails the assertion of
  \<^verbatim>\<open>pop\<close> nor its last assertion: it aborts on a bad opcode or on a choice left over by
  \<^verbatim>\<open>push(Feature)\<close> only. When it returns, it returns at least one feature, and no two
  features returned have equal choice lists.
\<close>

theorem featuresAt_features:
  assumes cursor: "tape s < length (tapes s)"
  shows "(\<forall>e. featuresAt N F p s = Some (Inl e) \<longrightarrow> e = BadOpcode \<or> e = ChoiceUnderrun) \<and>
         (\<forall>fs s'. featuresAt N F p s = Some (Inr (fs, s')) \<longrightarrow>
            fs \<noteq> [] \<and> distinct (map (feature_getChoices F) fs))"
proof (cases "specialize N p s")
  case None
  then show ?thesis by (simp add: featuresAt_def res_bind_simps)
next
  case (Some q)
  note sp = Some
  show ?thesis
  proof (cases q)
    case (Inl e)
    with sp specialize_error [OF cursor, of N p e] show ?thesis
      by (simp add: featuresAt_def res_bind_simps)
  next
    case (Inr s1)
    with sp have sp1: "specialize N p s = Some (Inr s1)" by simp
    note c1 = specialize_cursor [OF cursor sp1]
    show ?thesis
    proof (cases "featuresAt_loop N F [feature_new F] [] {} s1")
      case None
      with sp1 show ?thesis by (simp add: featuresAt_def res_bind_simps)
    next
      case (Some y)
      from featuresAt_loop_features [OF Some] c1
      have a: "\<forall>e. y = Inl e \<longrightarrow> e = BadOpcode \<or> e = ChoiceUnderrun"
        and b: "\<forall>fin' s'. y = Inr (fin', s') \<longrightarrow>
            fin' \<noteq> [] \<and> distinct (map (feature_getChoices F) fin')"
        by simp_all
      show ?thesis
      proof (cases y)
        case (Inl e)
        with a sp1 Some show ?thesis by (simp add: featuresAt_def res_bind_simps)
      next
        case (Inr z)
        obtain fin s2 where z: "z = (fin, s2)" by (cases z)
        from b Inr z have ne: "fin \<noteq> []" and d: "distinct (map (feature_getChoices F) fin)"
          by simp_all
        from featuresAt_loop_cursor [OF Some] c1 Inr z have "tape s2 = tape s1" by simp
        with c1 have pop2: "pop s2 = Some (Inr (s2\<lparr>tape := tape s\<rparr>))" by (simp add: pop_def)
        have "featuresAt N F p s = Some (Inr (fin, s2\<lparr>tape := tape s\<rparr>))"
          using sp1 Some Inr z pop2 ne by (simp add: featuresAt_def res_bind_simps)
        with ne d show ?thesis by simp
      qed
    qed
  qed
qed

text \<open>The theorem at \<open>max(x, y)\<close> and the origin.\<close>

theorem featuresAt_features_witness:
  "tape ex_max < length (tapes ex_max) \<and>
   (\<exists>s'. featuresAt ideal_ops plain_features (Fin 0, Fin 0, Fin 0) ex_max
            = Some (Inr ([([\<lparr>choice_id = 1, choice_choice = 0\<rparr>], (Fin 1, Fin 0, Fin 0)),
                          ([\<lparr>choice_id = 1, choice_choice = 1\<rparr>], (Fin 0, Fin 1, Fin 0))], s'))) \<and>
   distinct (map (feature_getChoices plain_features)
     [([\<lparr>choice_id = 1, choice_choice = 0\<rparr>], (Fin 1, Fin 0, Fin 0)),
      ([\<lparr>choice_id = 1, choice_choice = 1\<rparr>], (Fin 0, Fin 1, Fin 0))])"
proof -
  have h: "tape ex_max < length (tapes ex_max)" by (simp add: ex_max_def)
  from ex_max_features obtain s' where
    r: "featuresAt ideal_ops plain_features (Fin 0, Fin 0, Fin 0) ex_max
            = Some (Inr ([([\<lparr>choice_id = 1, choice_choice = 0\<rparr>], (Fin 1, Fin 0, Fin 0)),
                          ([\<lparr>choice_id = 1, choice_choice = 1\<rparr>], (Fin 0, Fin 1, Fin 0))], s'))"
    ..
  from featuresAt_features [OF h, THEN conjunct2, rule_format, OF r]
  have "distinct (map (feature_getChoices plain_features)
     [([\<lparr>choice_id = 1, choice_choice = 0\<rparr>], (Fin 1, Fin 0, Fin 0)),
      ([\<lparr>choice_id = 1, choice_choice = 1\<rparr>], (Fin 0, Fin 1, Fin 0))])"
    by (rule conjunct2)
  with h r show ?thesis by blast
qed

text \<open>
  C7. The claim has \<^verbatim>\<open>featuresAt(p)\<close> return a sequence for every point. For
  \<open>mod(x, y)\<close> at \<open>x = -1\<close>, \<open>y = -2\<close> it never returns: \<^verbatim>\<open>specialize(p)\<close> evaluates at
  \<open>p\<close> first, and the loop of the \<^verbatim>\<open>MOD\<close> case does not end.
\<close>

theorem featuresAt_never_returns:
  "featuresAt ideal_ops plain_features (Fin (- 1), Fin (- 2), Fin 0) ex_mod = None"
  unfolding featuresAt_def specialize_def eval_def ex_mod_values_hang res_bind_simps by simp

end
